theory Spec2Isabelle
  imports Complex_Main "HOL-Library.Log_Nat"
begin

section \<open>Request data (types.ts)\<close>

text \<open>
  The sort directions and the facet operator are the string unions
  \<^verbatim>\<open>'ASC' | 'DESC'\<close> and \<^verbatim>\<open>'AND' | 'OR'\<close> of \<^verbatim>\<open>CursorSearchInput\<close>. Every optional
  field is an \<open>option\<close>; \<open>take\<close> is a GraphQL \<open>Int\<close>, so it may be zero or negative.
\<close>

datatype sort_order = ASC | DESC

datatype logical_operator = AND | OR

record sort_input =
  name :: "sort_order option"
  price :: "sort_order option"
  createdAt :: "sort_order option"

record CursorSearchInput =
  term_in :: "string option"
  facetValueIds :: "string list option"
  facetValueOperator :: "logical_operator option"
  collectionId :: "string option"
  collectionSlug :: "string option"
  groupByProduct :: "bool option"
  take_in :: "int option"
  cursor :: "string option"
  sort_in :: "sort_input option"

section \<open>The sort composer (buildSort)\<close>

text \<open>
  A sort clause \<^verbatim>\<open>{ field: { order: dir } }\<close> is the pair of the field name and the
  direction word. \<open>sort_order_text\<close> is the enum's string and \<open>toLowerCase\<close> is
  \<^verbatim>\<open>String.prototype.toLowerCase\<close> on ASCII letters.
\<close>

type_synonym sort_clause = "string \<times> string"

fun sort_order_text :: "sort_order \<Rightarrow> string" where
  "sort_order_text ASC = ''ASC''"
| "sort_order_text DESC = ''DESC''"

definition toLowerCase :: "string \<Rightarrow> string" where
  "toLowerCase s =
     map (\<lambda>c. if 65 \<le> (of_char c :: nat) \<and> (of_char c :: nat) \<le> 90
              then char_of (of_char c + 32 :: nat) else c) s"

definition buildSort :: "sort_input option \<Rightarrow> sort_clause list" where
  "buildSort sortInput =
     (let sort0 = [];
          sort1 = (case sortInput of
                     None \<Rightarrow> sort0
                   | Some si \<Rightarrow>
                       (let s1 = (case name si of
                                    Some d \<Rightarrow> sort0 @ [(''productName.keyword'', toLowerCase (sort_order_text d))]
                                  | None \<Rightarrow> sort0);
                            s2 = (case price si of
                                    Some d \<Rightarrow> s1 @ [(''priceWithTax'', toLowerCase (sort_order_text d))]
                                  | None \<Rightarrow> s1)
                        in s2));
          sort2 = (if \<not> list_ex (\<lambda>s. fst s = ''productId'') sort1
                   then sort1 @ [(''productId'', ''asc'')] else sort1);
          sort3 = sort2 @ [(''productVariantId'', ''asc'')]
      in sort3)"

section \<open>The query translator (buildQuery)\<close>

text \<open>
  The query objects that \<open>buildQuery\<close> builds: \<^verbatim>\<open>match_all\<close>, \<^verbatim>\<open>multi_match\<close> (query text,
  fields, type, fuzziness), \<^verbatim>\<open>term\<close> (field, value) and \<^verbatim>\<open>bool\<close>, whose object is the
  list of its occurrence keys with their clause arrays, in the order the code writes them.
\<close>

datatype occur = Must | Filter | Should

datatype es_query =
    MatchAll
  | MultiMatch string "string list" string string
  | Term string string
  | BoolQ "(occur \<times> es_query list) list"

definition buildQuery :: "CursorSearchInput \<Rightarrow> es_query" where
  "buildQuery input =
     (let must0 = [];
          filter0 = [];
          must1 = (case term_in input of
                     Some t \<Rightarrow>
                       if t \<noteq> [] then
                         must0 @ [MultiMatch t [''productName^3'', ''description'', ''sku^2'']
                                    ''best_fields'' ''AUTO'']
                       else must0
                   | None \<Rightarrow> must0);
          filter1 = (case facetValueIds input of
                       Some ids \<Rightarrow>
                         if length ids > 0 then
                           (let operator = (if facetValueOperator input = Some AND then Must else Should)
                            in filter0 @ [BoolQ [(operator, map (\<lambda>i. Term ''facetValueIds'' i) ids)]])
                         else filter0
                     | None \<Rightarrow> filter0);
          filter2 = (case collectionId input of
                       Some c \<Rightarrow> if c \<noteq> [] then filter1 @ [Term ''collectionIds'' c] else filter1
                     | None \<Rightarrow> filter1);
          must2 = (if length must1 = 0 then must1 @ [MatchAll] else must1)
      in BoolQ [(Must, must2), (Filter, filter2)])"

text \<open>
  What a query selects. The index is outside the repository, so the meaning of a full-text
  clause is a parameter \<open>tm\<close> (does the document match the text) and \<open>fv\<close> gives the values a
  document holds in a keyword field. A \<^verbatim>\<open>bool\<close> query selects a document when every
  \<^verbatim>\<open>must\<close> and every \<^verbatim>\<open>filter\<close> clause selects it and, when it has \<^verbatim>\<open>should\<close> clauses but no
  \<^verbatim>\<open>must\<close> or \<^verbatim>\<open>filter\<close> clause, at least one \<^verbatim>\<open>should\<close> clause selects it.
\<close>

definition clauses_of :: "occur \<Rightarrow> (occur \<times> 'a list) list \<Rightarrow> 'a list" where
  "clauses_of oc cs = concat (map snd (filter (\<lambda>c. fst c = oc) cs))"

definition bool_selects :: "(occur \<times> bool list) list \<Rightarrow> bool" where
  "bool_selects cs =
     (list_all id (clauses_of Must cs) \<and> list_all id (clauses_of Filter cs) \<and>
      (clauses_of Should cs = [] \<or> clauses_of Must cs \<noteq> [] \<or> clauses_of Filter cs \<noteq> [] \<or>
       list_ex id (clauses_of Should cs)))"

primrec selects :: "(string \<Rightarrow> 'd \<Rightarrow> bool) \<Rightarrow> ('d \<Rightarrow> string \<Rightarrow> string list) \<Rightarrow> 'd \<Rightarrow> es_query \<Rightarrow> bool" where
  "selects tm fv d MatchAll = True"
| "selects tm fv d (MultiMatch t fs ty fz) = tm t d"
| "selects tm fv d (Term f v) = (v \<in> set (fv d f))"
| "selects tm fv d (BoolQ cs) = bool_selects (map (map_prod id (map (selects tm fv d))) cs)"

section \<open>JavaScript numbers (the Number value of a literal, Number::toString)\<close>

text \<open>
  A JavaScript number is an IEEE 754 double: NaN, an infinity, or a finite value with a sign.
  \<open>Finite neg m e\<close> stands for the value \<open>m * 2 ^ e\<close>, taken negative when \<open>neg\<close> holds. The
  datatype has more inhabitants than there are doubles; \<open>is_double\<close> holds of the doubles:
  the significand is below \<open>2 ^ 53\<close>, the exponent lies between \<open>-1074\<close> and \<open>971\<close>, and the
  significand is at least \<open>2 ^ 52\<close> except at the lowest exponent, where the subnormal numbers
  and the two zeros are.
\<close>

datatype number = NaN | Infinity bool | Finite bool int int

definition is_double :: "number \<Rightarrow> bool" where
  "is_double x =
     (case x of
        Finite neg m e \<Rightarrow> 0 \<le> m \<and> m < 2 ^ 53 \<and> - 1074 \<le> e \<and> e \<le> 971 \<and> (m < 2 ^ 52 \<longrightarrow> e = - 1074)
      | _ \<Rightarrow> True)"

fun negate :: "number \<Rightarrow> number" where
  "negate NaN = NaN"
| "negate (Infinity neg) = Infinity (\<not> neg)"
| "negate (Finite neg m e) = Finite (\<not> neg) m e"

text \<open>
  The Number value of a real number is the double nearest to it, a tie going to the even
  significand, and infinity beyond the largest double. \<open>to_number a b\<close> is the Number value
  of the fraction \<open>a / b\<close> (\<open>a\<close> not negative, \<open>b\<close> positive): \<open>scaled base a b e\<close> is the fraction
  \<open>a / (b * base ^ e)\<close>, \<open>normal_exponent\<close> is the binary exponent that brings the significand
  into the range from \<open>2 ^ 52\<close> to \<open>2 ^ 53\<close>, estimated from the bit lengths and settled by one
  comparison, and \<open>binary_exponent\<close> is the same, but not below the exponent of the subnormal
  numbers. \<open>number_value s p\<close> is the Number value of the decimal \<open>s * 10 ^ p\<close>.
\<close>

definition scaled :: "int \<Rightarrow> int \<Rightarrow> int \<Rightarrow> int \<Rightarrow> int \<times> int" where
  "scaled base a b e = (if 0 \<le> e then (a, b * base ^ nat e) else (a * base ^ nat (- e), b))"

definition round_half_even :: "int \<Rightarrow> int \<Rightarrow> int" where
  "round_half_even n d =
     (let q = n div d; r = n mod d in if d < 2 * r \<or> (2 * r = d \<and> odd q) then q + 1 else q)"

definition normal_exponent :: "int \<Rightarrow> int \<Rightarrow> int" where
  "normal_exponent a b =
     (let e1 = bitlen a - bitlen b - 53;
          (n, d) = scaled 2 a b e1
      in if d * 2 ^ 53 \<le> n then e1 + 1 else e1)"

definition binary_exponent :: "int \<Rightarrow> int \<Rightarrow> int" where
  "binary_exponent a b = max (normal_exponent a b) (- 1074)"

definition to_number :: "int \<Rightarrow> int \<Rightarrow> number" where
  "to_number a b =
     (if a = 0 then Finite False 0 (- 1074)
      else
        (let e = binary_exponent a b;
             (n, d) = scaled 2 a b e;
             m = round_half_even n d
         in if m = 2 ^ 53 then (if 971 < e + 1 then Infinity False else Finite False (2 ^ 52) (e + 1))
            else if 971 < e then Infinity False else Finite False m e))"

definition number_value :: "int \<Rightarrow> int \<Rightarrow> number" where
  "number_value s p = (case scaled 10 s 1 (- p) of (a, b) \<Rightarrow> to_number a b)"

text \<open>
  \<^verbatim>\<open>Number::toString\<close>. For a finite number other than zero, ECMAScript takes the decimal
  \<open>s * 10 ^ (n - k)\<close> with the fewest digits \<open>k\<close> whose Number value is the number, and among
  several the one nearest to it. \<open>decimal_exponent\<close> is the \<open>n\<close> with \<open>10 ^ (n - 1) \<le> v < 10 ^ n\<close>
  for the value \<open>v\<close> of the number. For each \<open>k\<close> from 1 on, \<open>shortest_decimal\<close> tries the two
  decimals of \<open>k\<close> digits next to \<open>v\<close>, the one below and the one above. Seventeen digits
  always identify a double; the exact decimal expansion, which every double has, closes the
  search, so that the function is total without that fact. \<open>format_decimal\<close> lays the digits
  out: plain up to \<open>10 ^ 21\<close>, with leading zeros down to \<open>10 ^ -6\<close>, in exponent notation
  otherwise.
\<close>

function digits :: "int \<Rightarrow> string" where
  "digits n = (if n < 10 then [char_of (48 + n)] else digits (n div 10) @ [char_of (48 + n mod 10)])"
  by pat_completeness auto

termination
  by (relation "measure nat") auto

declare digits.simps [simp del]

definition decimal_exponent :: "int \<Rightarrow> int \<Rightarrow> int" where
  "decimal_exponent vn vd =
     (let n0 = int (length (digits vn)) - int (length (digits vd));
          (n, d) = scaled 10 vn vd n0
      in if d \<le> n then n0 + 1 else n0)"

definition exact_decimal :: "int \<Rightarrow> int \<Rightarrow> int \<times> int" where
  "exact_decimal m e = (if 0 \<le> e then (m * 2 ^ nat e, 0) else (m * 5 ^ nat (- e), e))"

fun shortest_decimal :: "nat \<Rightarrow> int \<Rightarrow> int \<Rightarrow> int \<Rightarrow> nat \<Rightarrow> int \<times> int" where
  "shortest_decimal 0 m e n k = exact_decimal m e"
| "shortest_decimal (Suc fuel) m e n k =
     (let p = n - int k;
          (vn, vd) = scaled 2 m 1 (- e);
          (n', d') = scaled 10 vn vd p;
          lo = n' div d';
          r = n' mod d';
          low = (lo, p);
          high = (if lo + 1 = 10 ^ k then (10 ^ (k - 1), p + 1) else (lo + 1, p));
          low_ok = (number_value (fst low) (snd low) = Finite False m e);
          high_ok = (number_value (fst high) (snd high) = Finite False m e)
      in if low_ok \<and> high_ok then (if 2 * r < d' \<or> (2 * r = d' \<and> even lo) then low else high)
         else if low_ok then low
         else if high_ok then high
         else shortest_decimal fuel m e n (Suc k))"

definition exponent_text :: "int \<Rightarrow> string" where
  "exponent_text ex = CHR ''e'' # (if ex < 0 then CHR ''-'' else CHR ''+'') # digits \<bar>ex\<bar>"

definition format_decimal :: "string \<Rightarrow> int \<Rightarrow> string" where
  "format_decimal ds n =
     (let k = int (length ds) in
      if k \<le> n \<and> n \<le> 21 then ds @ replicate (nat (n - k)) (CHR ''0'')
      else if 0 < n \<and> n \<le> 21 then take (nat n) ds @ CHR ''.'' # drop (nat n) ds
      else if - 6 < n \<and> n \<le> 0 then CHR ''0'' # CHR ''.'' # replicate (nat (- n)) (CHR ''0'') @ ds
      else if k = 1 then ds @ exponent_text (n - 1)
      else hd ds # CHR ''.'' # tl ds @ exponent_text (n - 1))"

definition number_text :: "number \<Rightarrow> string" where
  "number_text x =
     (case x of
        NaN \<Rightarrow> ''NaN''
      | Infinity neg \<Rightarrow> (if neg then ''-Infinity'' else ''Infinity'')
      | Finite neg m e \<Rightarrow>
          if m = 0 then ''0''
          else
            (let (vn, vd) = scaled 2 m 1 (- e);
                 (s, p) = shortest_decimal 17 m e (decimal_exponent vn vd) 1;
                 shown = format_decimal (digits s) (p + int (length (digits s)))
             in if neg then CHR ''-'' # shown else shown))"

section \<open>JSON values and their text (JSON.stringify, JSON.parse)\<close>

text \<open>
  The cursor is JSON text. A JavaScript string is held here by its UTF-8 bytes (\<open>string\<close> is a
  list of 8-bit characters), so \<^verbatim>\<open>Buffer.from(text)\<close> and \<^verbatim>\<open>toString('utf-8')\<close> do not
  change the representation of text that is UTF-8. Bytes that are not UTF-8 stay as they are
  where Node puts the replacement character; the replacement never touches an ASCII
  character, so the same texts are JSON and they have the same structure. An object is the
  list of its members in the order of the text; a later member with the same key wins when a
  property is read.
\<close>

datatype json = JNull | JBool bool | JNum number | JStr string | JArr "json list" | JObj "(string \<times> json) list"

abbreviation dquote :: char where "dquote \<equiv> CHR 0x22"
abbreviation backslash :: char where "backslash \<equiv> CHR 0x5C"

text \<open>
  \<^verbatim>\<open>JSON.stringify\<close> with no indentation. A finite number is written by \<^verbatim>\<open>Number::toString\<close>,
  NaN and the infinities as \<open>null\<close>. \<open>quote_char\<close> follows QuoteJSONString: the two-character
  escapes for the quote, the backslash and the five named control characters, \<^verbatim>\<open>\u00xx\<close> (lower
  case) for the other characters below 0x20, every other character as it is. (A lone
  surrogate, which \<^verbatim>\<open>JSON.stringify\<close> writes as an escape, has no UTF-8 bytes: text held by its
  UTF-8 bytes has none.)
\<close>

definition hex_digit :: "nat \<Rightarrow> char" where
  "hex_digit n = (if n < 10 then char_of (48 + n) else char_of (87 + n))"

definition quote_char :: "char \<Rightarrow> string" where
  "quote_char c =
     (let n = (of_char c :: nat) in
      if c = dquote then [backslash, dquote]
      else if c = backslash then [backslash, backslash]
      else if n = 8 then [backslash, CHR ''b'']
      else if n = 9 then [backslash, CHR ''t'']
      else if n = 10 then [backslash, CHR ''n'']
      else if n = 12 then [backslash, CHR ''f'']
      else if n = 13 then [backslash, CHR ''r'']
      else if n < 32 then [backslash, CHR ''u'', CHR ''0'', CHR ''0'', hex_digit (n div 16), hex_digit (n mod 16)]
      else [c])"

definition quote_string :: "string \<Rightarrow> string" where
  "quote_string s = dquote # concat (map quote_char s) @ [dquote]"

fun join_comma :: "string list \<Rightarrow> string" where
  "join_comma [] = []"
| "join_comma [x] = x"
| "join_comma (x # y # ys) = x @ CHR '','' # join_comma (y # ys)"

primrec stringify :: "json \<Rightarrow> string" where
  "stringify JNull = ''null''"
| "stringify (JBool b) = (if b then ''true'' else ''false'')"
| "stringify (JNum x) = (case x of Finite neg m e \<Rightarrow> number_text x | _ \<Rightarrow> ''null'')"
| "stringify (JStr s) = quote_string s"
| "stringify (JArr vs) = CHR ''['' # join_comma (map stringify vs) @ '']''"
| "stringify (JObj kvs) =
     CHR ''{'' # join_comma (map (\<lambda>(k, t). quote_string k @ CHR '':'' # t) (map (map_prod id stringify) kvs)) @ ''}''"

text \<open>
  \<^verbatim>\<open>JSON.parse\<close> as a recursive-descent reader over the JSON grammar: white space between
  tokens, the three literals, strings with their escapes, numbers, arrays and objects.
  \<open>None\<close> is the SyntaxError.

  A number is an optional minus sign, the integer digits (a single \<open>0\<close>, or digits that do
  not start with \<open>0\<close>), an optional fraction (a point and at least one digit) and an optional
  exponent (\<open>e\<close> or \<open>E\<close>, an optional sign and at least one digit). Its value is the Number
  value of the decimal it denotes, so \<open>-0\<close> reads as the negative zero and \<open>1e400\<close> as
  infinity.

  In a string, \<^verbatim>\<open>\uXXXX\<close> denotes a UTF-16 code unit. A high surrogate followed by an escaped
  low surrogate is one code point, stored as its four UTF-8 bytes; any other code unit is
  stored as the UTF-8 bytes of its own value.

  The readers for values, array elements and object members call each other with a counter
  that goes down by one at each call; \<open>json_parse\<close> starts it at twice the length of the text
  plus one, which is enough for every text (\<open>counter_enough\<close> below).
\<close>

definition is_ws :: "char \<Rightarrow> bool" where
  "is_ws c = (c = CHR 0x20 \<or> c = CHR 0x09 \<or> c = CHR 0x0A \<or> c = CHR 0x0D)"

definition skip_ws :: "string \<Rightarrow> string" where
  "skip_ws s = dropWhile is_ws s"

definition is_digit :: "char \<Rightarrow> bool" where
  "is_digit c = (48 \<le> (of_char c :: nat) \<and> (of_char c :: nat) \<le> 57)"

definition digits_value :: "string \<Rightarrow> int" where
  "digits_value ds = foldl (\<lambda>a c. 10 * a + (of_char c - 48)) 0 ds"

definition read_integer :: "string \<Rightarrow> (string \<times> string) option" where
  "read_integer s =
     (case s of
        [] \<Rightarrow> None
      | c # r \<Rightarrow>
          if \<not> is_digit c then None
          else if c = CHR ''0'' then Some ([c], r)
          else Some (c # takeWhile is_digit r, dropWhile is_digit r))"

definition read_fraction :: "string \<Rightarrow> (string \<times> string) option" where
  "read_fraction s =
     (case s of
        [] \<Rightarrow> Some ([], s)
      | c # r \<Rightarrow>
          if c \<noteq> CHR ''.'' then Some ([], s)
          else if takeWhile is_digit r = [] then None
          else Some (takeWhile is_digit r, dropWhile is_digit r))"

definition read_exponent :: "string \<Rightarrow> (int \<times> string) option" where
  "read_exponent s =
     (case s of
        [] \<Rightarrow> Some (0, s)
      | c # r \<Rightarrow>
          if c \<noteq> CHR ''e'' \<and> c \<noteq> CHR ''E'' then Some (0, s)
          else
            (let minus = (case r of x # _ \<Rightarrow> x = CHR ''-'' | [] \<Rightarrow> False);
                 plus = (case r of x # _ \<Rightarrow> x = CHR ''+'' | [] \<Rightarrow> False);
                 r' = (if minus \<or> plus then tl r else r);
                 ds = takeWhile is_digit r'
             in if ds = [] then None
                else Some (if minus then - digits_value ds else digits_value ds, dropWhile is_digit r')))"

definition parse_number :: "string \<Rightarrow> (number \<times> string) option" where
  "parse_number s =
     (let minus = (case s of c # _ \<Rightarrow> c = CHR ''-'' | [] \<Rightarrow> False);
          s1 = (if minus then tl s else s)
      in case read_integer s1 of
           None \<Rightarrow> None
         | Some (int_ds, r1) \<Rightarrow>
             (case read_fraction r1 of
                None \<Rightarrow> None
              | Some (frac_ds, r2) \<Rightarrow>
                  (case read_exponent r2 of
                     None \<Rightarrow> None
                   | Some (ex, r3) \<Rightarrow>
                       (let x = number_value (digits_value (int_ds @ frac_ds)) (ex - int (length frac_ds))
                        in Some (if minus then negate x else x, r3)))))"

definition hex_value :: "char \<Rightarrow> nat option" where
  "hex_value c =
     (let n = (of_char c :: nat) in
      if 48 \<le> n \<and> n \<le> 57 then Some (n - 48)
      else if 97 \<le> n \<and> n \<le> 102 then Some (n - 87)
      else if 65 \<le> n \<and> n \<le> 70 then Some (n - 55)
      else None)"

definition utf8 :: "nat \<Rightarrow> string" where
  "utf8 n =
     (if n < 0x80 then [char_of n]
      else if n < 0x800 then [char_of (0xC0 + n div 64), char_of (0x80 + n mod 64)]
      else if n < 0x10000 then
        [char_of (0xE0 + n div 4096), char_of (0x80 + (n div 64) mod 64), char_of (0x80 + n mod 64)]
      else
        [char_of (0xF0 + n div 262144), char_of (0x80 + (n div 4096) mod 64),
         char_of (0x80 + (n div 64) mod 64), char_of (0x80 + n mod 64)])"

definition unicode_escape :: "string \<Rightarrow> nat option" where
  "unicode_escape hs =
     (case map hex_value hs of
        [Some a, Some b, Some c, Some d] \<Rightarrow> Some (((a * 16 + b) * 16 + c) * 16 + d)
      | _ \<Rightarrow> None)"

definition low_surrogate_escape :: "string \<Rightarrow> nat option" where
  "low_surrogate_escape s =
     (if take 2 s = [backslash, CHR ''u''] then
        (case unicode_escape (take 4 (drop 2 s)) of
           None \<Rightarrow> None
         | Some l \<Rightarrow> if 0xDC00 \<le> l \<and> l \<le> 0xDFFF then Some l else None)
      else None)"

fun parse_string_body :: "string \<Rightarrow> (string \<times> string) option" where
  "parse_string_body [] = None"
| "parse_string_body (c # r) =
     (if c = dquote then Some ([], r)
      else if c = backslash then
        (case r of
           [] \<Rightarrow> None
         | e # r' \<Rightarrow>
             if e = dquote \<or> e = backslash \<or> e = CHR ''/'' then map_option (apfst ((#) e)) (parse_string_body r')
             else if e = CHR ''b'' then map_option (apfst ((#) (CHR 0x08))) (parse_string_body r')
             else if e = CHR ''f'' then map_option (apfst ((#) (CHR 0x0C))) (parse_string_body r')
             else if e = CHR ''n'' then map_option (apfst ((#) (CHR 0x0A))) (parse_string_body r')
             else if e = CHR ''r'' then map_option (apfst ((#) (CHR 0x0D))) (parse_string_body r')
             else if e = CHR ''t'' then map_option (apfst ((#) (CHR 0x09))) (parse_string_body r')
             else if e = CHR ''u'' then
               (case unicode_escape (take 4 r') of
                  None \<Rightarrow> None
                | Some h \<Rightarrow>
                    (case (if 0xD800 \<le> h \<and> h \<le> 0xDBFF then low_surrogate_escape (drop 4 r') else None) of
                       Some l \<Rightarrow>
                         map_option (apfst ((@) (utf8 (0x10000 + (h - 0xD800) * 0x400 + (l - 0xDC00)))))
                           (parse_string_body (drop 10 r'))
                     | None \<Rightarrow> map_option (apfst ((@) (utf8 h))) (parse_string_body (drop 4 r'))))
             else None)
      else if (of_char c :: nat) < 32 then None
      else map_option (apfst ((#) c)) (parse_string_body r))"

fun parse_value :: "nat \<Rightarrow> string \<Rightarrow> (json \<times> string) option"
  and parse_elements :: "nat \<Rightarrow> string \<Rightarrow> (json list \<times> string) option"
  and parse_members :: "nat \<Rightarrow> string \<Rightarrow> ((string \<times> json) list \<times> string) option"
where
  "parse_value 0 s = None"
| "parse_value (Suc n) s =
     (case skip_ws s of
        [] \<Rightarrow> None
      | c # r \<Rightarrow>
          if c = CHR ''{'' then
            (case skip_ws r of
               [] \<Rightarrow> None
             | c' # r' \<Rightarrow>
                 if c' = CHR ''}'' then Some (JObj [], r')
                 else map_option (apfst JObj) (parse_members n r))
          else if c = CHR ''['' then
            (case skip_ws r of
               [] \<Rightarrow> None
             | c' # r' \<Rightarrow>
                 if c' = CHR '']'' then Some (JArr [], r')
                 else map_option (apfst JArr) (parse_elements n r))
          else if c = dquote then map_option (apfst JStr) (parse_string_body r)
          else if c = CHR ''-'' \<or> is_digit c then map_option (apfst JNum) (parse_number (c # r))
          else if take 4 (c # r) = ''true'' then Some (JBool True, drop 4 (c # r))
          else if take 5 (c # r) = ''false'' then Some (JBool False, drop 5 (c # r))
          else if take 4 (c # r) = ''null'' then Some (JNull, drop 4 (c # r))
          else None)"
| "parse_elements 0 s = None"
| "parse_elements (Suc n) s =
     (case parse_value n s of
        None \<Rightarrow> None
      | Some (v, r) \<Rightarrow>
          (case skip_ws r of
             [] \<Rightarrow> None
           | c # r' \<Rightarrow>
               if c = CHR '','' then map_option (apfst ((#) v)) (parse_elements n r')
               else if c = CHR '']'' then Some ([v], r')
               else None))"
| "parse_members 0 s = None"
| "parse_members (Suc n) s =
     (case skip_ws s of
        [] \<Rightarrow> None
      | c # r \<Rightarrow>
          if c \<noteq> dquote then None
          else
            (case parse_string_body r of
               None \<Rightarrow> None
             | Some (k, r1) \<Rightarrow>
                 (case skip_ws r1 of
                    [] \<Rightarrow> None
                  | c1 # r2 \<Rightarrow>
                      if c1 \<noteq> CHR '':'' then None
                      else
                        (case parse_value n r2 of
                           None \<Rightarrow> None
                         | Some (v, r3) \<Rightarrow>
                             (case skip_ws r3 of
                                [] \<Rightarrow> None
                              | c3 # r4 \<Rightarrow>
                                  if c3 = CHR '','' then map_option (apfst ((#) (k, v))) (parse_members n r4)
                                  else if c3 = CHR ''}'' then Some ([(k, v)], r4)
                                  else None)))))"

definition json_parse :: "string \<Rightarrow> json option" where
  "json_parse s =
     (case parse_value (Suc (2 * length s)) s of
        None \<Rightarrow> None
      | Some (v, r) \<Rightarrow> if skip_ws r = [] then Some v else None)"

section \<open>Base64 (Buffer's 'base64' encoding)\<close>

text \<open>
  Encoding writes four alphabet characters for three bytes and pads the last group with
  \<open>=\<close>. Decoding is Node's lenient one: it stops at the first \<open>=\<close>, skips every character
  outside the alphabet (the URL-safe \<open>-\<close> and \<open>_\<close> count as \<open>+\<close> and \<open>/\<close>), and turns each
  complete or partial group of sextets into the bytes it determines. It never fails.
\<close>

definition b64_char :: "nat \<Rightarrow> char" where
  "b64_char n =
     (if n < 26 then char_of (65 + n)
      else if n < 52 then char_of (71 + n)
      else if n < 62 then char_of (n - 4)
      else if n = 62 then CHR ''+'' else CHR ''/'')"

definition b64_value :: "char \<Rightarrow> nat option" where
  "b64_value c =
     (let n = (of_char c :: nat) in
      if 65 \<le> n \<and> n \<le> 90 then Some (n - 65)
      else if 97 \<le> n \<and> n \<le> 122 then Some (n - 71)
      else if 48 \<le> n \<and> n \<le> 57 then Some (n + 4)
      else if c = CHR ''+'' \<or> c = CHR ''-'' then Some 62
      else if c = CHR ''/'' \<or> c = CHR ''_'' then Some 63
      else None)"

fun b64_sextets :: "nat list \<Rightarrow> nat list" where
  "b64_sextets (x # y # z # r) =
     [x div 4, (x mod 4) * 16 + y div 16, (y mod 16) * 4 + z div 64, z mod 64] @ b64_sextets r"
| "b64_sextets [x, y] = [x div 4, (x mod 4) * 16 + y div 16, (y mod 16) * 4]"
| "b64_sextets [x] = [x div 4, (x mod 4) * 16]"
| "b64_sextets [] = []"

definition base64_encode :: "string \<Rightarrow> string" where
  "base64_encode bs =
     map b64_char (b64_sextets (map of_char bs)) @ replicate ((3 - length bs mod 3) mod 3) (CHR ''='')"

fun b64_bytes :: "nat list \<Rightarrow> nat list" where
  "b64_bytes (a # b # c # d # r) =
     [a * 4 + b div 16, (b mod 16) * 16 + c div 4, (c mod 4) * 64 + d] @ b64_bytes r"
| "b64_bytes [a, b, c] = [a * 4 + b div 16, (b mod 16) * 16 + c div 4]"
| "b64_bytes [a, b] = [a * 4 + b div 16]"
| "b64_bytes _ = []"

definition base64_decode :: "string \<Rightarrow> string" where
  "base64_decode s =
     map char_of (b64_bytes (List.map_filter b64_value (takeWhile (\<lambda>c. c \<noteq> CHR ''='') s)))"

section \<open>The cursor codec (encodeCursor, decodeCursor)\<close>

text \<open>
  \<^verbatim>\<open>SearchAfterValues\<close> is \<^verbatim>\<open>{ values: any[], sortFields: string[] }\<close>; \<open>search_after_json\<close> is
  that object as \<^verbatim>\<open>JSON.stringify\<close> receives it. A thrown JavaScript error is its name and its
  message. \<open>decodeCursor\<close> returns whatever JSON value the token holds: the TypeScript return
  type is not checked at run time.
\<close>

record SearchAfterValues =
  values_sa :: "json list"
  sortFields :: "string list"

record js_error =
  error_name :: string
  message :: string

definition search_after_json :: "SearchAfterValues \<Rightarrow> json" where
  "search_after_json searchAfter =
     JObj [(''values'', JArr (values_sa searchAfter)),
           (''sortFields'', JArr (map JStr (sortFields searchAfter)))]"

definition encodeCursor :: "SearchAfterValues \<Rightarrow> string" where
  "encodeCursor searchAfter = base64_encode (stringify (search_after_json searchAfter))"

definition decodeCursor :: "string \<Rightarrow> js_error + json" where
  "decodeCursor token =
     (case json_parse (base64_decode token) of
        Some v \<Rightarrow> Inr v
      | None \<Rightarrow> Inl \<lparr>error_name = ''Error'', message = ''Invalid cursor format''\<rparr>)"

section \<open>The page fetch (cursorSearch)\<close>

text \<open>
  \<open>optional_values\<close> is the expression \<^verbatim>\<open>searchAfter?.values\<close>: undefined when no cursor was
  decoded or the decoded value is \<open>null\<close>, the member \<open>values\<close> of a decoded object,
  \<^verbatim>\<open>Array.prototype.values\<close> (a function) on a decoded array, and undefined on a number, a
  string or a boolean. The client sends its parameters as a JSON body, and
  \<^verbatim>\<open>JSON.stringify\<close> leaves out a property whose value is undefined or a function:
  \<open>body_value\<close> is what the index receives for such a property.
\<close>

datatype js_value = Undefined | NativeFunction | Value json

fun optional_values :: "json option \<Rightarrow> js_value" where
  "optional_values None = Undefined"
| "optional_values (Some JNull) = Undefined"
| "optional_values (Some (JObj kvs)) =
     (case map_of (rev kvs) ''values'' of None \<Rightarrow> Undefined | Some v \<Rightarrow> Value v)"
| "optional_values (Some (JArr vs)) = NativeFunction"
| "optional_values (Some v) = Undefined"

fun body_value :: "js_value \<Rightarrow> json option" where
  "body_value Undefined = None"
| "body_value NativeFunction = None"
| "body_value (Value v) = Some v"

text \<open>
  The request handed to \<^verbatim>\<open>client.search\<close>, and the part of the response that \<open>cursorSearch\<close>
  reads: the hits, each with the sort values the index attached to it (\<^verbatim>\<open>hit.sort\<close>, which
  may be missing), and the total, which is a number, an object with an optional \<open>value\<close>, or
  missing. What a hit carries besides its sort values (\<^verbatim>\<open>_source\<close>, \<^verbatim>\<open>_score\<close>) is the type
  parameter.
\<close>

record search_request =
  index :: string
  query :: es_query
  sort_req :: "sort_clause list"
  size_req :: int
  search_after :: "json option"
  track_total_hits :: bool

record 'a hit =
  document :: 'a
  sort_values :: "json list option"

datatype total_hits = TotalNumber int | TotalObject "int option" | TotalMissing

record 'a search_response =
  hits :: "'a hit list"
  total :: total_hits

record 'r CursorSearchResult =
  items :: "'r list"
  totalItems :: int
  hasMore :: bool
  nextCursor :: "string option"
  prevCursor :: "string option"

text \<open>
  What one call does: the requests it sent to the index, the errors it wrote with
  \<^verbatim>\<open>console.error\<close>, and how it ended (the error thrown, or the page returned).
\<close>

record 'r run =
  queries :: "search_request list"
  console :: "js_error list"
  outcome :: "js_error + 'r CursorSearchResult"

text \<open>
  \<open>effective_take\<close> is \<^verbatim>\<open>Math.min(input.take || 100, 1000)\<close>, \<open>total_items\<close> the expression for
  \<^verbatim>\<open>totalItems\<close>, and \<open>slice0 xs e\<close> is \<^verbatim>\<open>xs.slice(0, e)\<close>, which counts a negative end from the
  end of the array.
\<close>

definition effective_take :: "int option \<Rightarrow> int" where
  "effective_take t = min (case t of None \<Rightarrow> 100 | Some n \<Rightarrow> if n = 0 then 100 else n) 1000"

fun total_items :: "total_hits \<Rightarrow> int" where
  "total_items (TotalNumber n) = n"
| "total_items (TotalObject (Some v)) = (if v = 0 then 0 else v)"
| "total_items (TotalObject None) = 0"
| "total_items TotalMissing = 0"

definition slice0 :: "'a list \<Rightarrow> int \<Rightarrow> 'a list" where
  "slice0 xs e = (if e < 0 then take (nat (int (length xs) + e)) xs else take (nat e) xs)"

text \<open>
  \<open>cursorSearch\<close>. The index behind \<^verbatim>\<open>client.search\<close> is the parameter \<open>client\<close>: it answers a
  request with a response or throws. The projection of a hit into a search result
  (\<^verbatim>\<open>items.map(...)\<close>) is the parameter \<open>project\<close>. The cursor is decoded before the
  \<^verbatim>\<open>try\<close> block, so its error leaves the function with no request sent and nothing logged; an
  error of the client is logged and thrown again.
\<close>

definition cursorSearch ::
  "(search_request \<Rightarrow> js_error + 'a search_response) \<Rightarrow> ('a hit \<Rightarrow> 'r) \<Rightarrow> string \<Rightarrow>
   CursorSearchInput \<Rightarrow> 'r run" where
  "cursorSearch client project indexPrefix input =
     (let take' = effective_take (take_in input);
          indexPattern = indexPrefix @ ''variants*'';
          decoded = (case cursor input of
                       None \<Rightarrow> Inr None
                     | Some c \<Rightarrow> if c = [] then Inr None else map_sum id Some (decodeCursor c))
      in case decoded of
           Inl e \<Rightarrow> \<lparr>queries = [], console = [], outcome = Inl e\<rparr>
         | Inr searchAfter \<Rightarrow>
             (let sort' = buildSort (sort_in input);
                  query' = buildQuery input;
                  request = \<lparr>index = indexPattern, query = query', sort_req = sort',
                             size_req = take' + 1,
                             search_after = body_value (optional_values searchAfter),
                             track_total_hits = True\<rparr>
              in case client request of
                   Inl error \<Rightarrow> \<lparr>queries = [request], console = [error], outcome = Inl error\<rparr>
                 | Inr response \<Rightarrow>
                     (let hits' = hits response;
                          totalItems' = total_items (total response);
                          hasMore' = (int (length hits') > take');
                          items' = (if hasMore' then slice0 hits' take' else hits');
                          nextCursor' =
                            (if hasMore' \<and> length items' > 0
                             then Some (encodeCursor
                                    \<lparr>values_sa = (case sort_values (last items') of
                                                    Some vs \<Rightarrow> vs | None \<Rightarrow> []),
                                     sortFields = map fst sort'\<rparr>)
                             else None);
                          mappedItems = map project items'
                      in \<lparr>queries = [request], console = [],
                          outcome = Inr \<lparr>items = mappedItems, totalItems = totalItems',
                                         hasMore = hasMore', nextCursor = nextCursor',
                                         prevCursor = None\<rparr>\<rparr>)))"

section \<open>Notions used in the statements and in the proofs\<close>

text \<open>
  A sort value is a scalar JSON value, \<open>null\<close>, a boolean, a string or a number, whose number
  is a double. \<open>json_image v\<close> is what the value \<open>v\<close> is after it was written by
  \<^verbatim>\<open>JSON.stringify\<close> and read by \<^verbatim>\<open>JSON.parse\<close>: NaN and the infinities are written as
  \<open>null\<close>, and the negative zero is written as \<open>0\<close>.
\<close>

fun sort_value :: "json \<Rightarrow> bool" where
  "sort_value (JNum x) = is_double x"
| "sort_value (JArr vs) = False"
| "sort_value (JObj kvs) = False"
| "sort_value v = True"

primrec json_image :: "json \<Rightarrow> json" where
  "json_image JNull = JNull"
| "json_image (JBool b) = JBool b"
| "json_image (JNum x) =
     (case x of
        Finite neg m e \<Rightarrow> if m = 0 then JNum (Finite False 0 (- 1074)) else JNum x
      | _ \<Rightarrow> JNull)"
| "json_image (JStr s) = JStr s"
| "json_image (JArr vs) = JArr (map json_image vs)"
| "json_image (JObj kvs) = JObj (map (map_prod id json_image) kvs)"

text \<open>
  A sort value is carried exactly by JSON text when it is not NaN, not an infinity and not
  the negative zero.
\<close>

fun json_exact :: "json \<Rightarrow> bool" where
  "json_exact (JNum x) = (case x of Finite neg m e \<Rightarrow> m \<noteq> 0 \<or> \<not> neg | _ \<Rightarrow> False)"
| "json_exact v = True"

text \<open>
  \<open>value_start\<close> holds of the characters the text of a scalar can start with. \<open>no_digit r\<close>
  says that the text \<open>r\<close> does not start with a digit, and \<open>number_end r\<close> that the text \<open>r\<close>
  after a number does not continue it: it is empty or starts with a character that is no
  digit, point or exponent mark. \<open>integer_digits\<close> holds of the digit strings that are the
  integer part of a JSON number.
\<close>

definition value_start :: "char \<Rightarrow> bool" where
  "value_start c = (c = CHR ''n'' \<or> c = CHR ''t'' \<or> c = CHR ''f'' \<or> c = dquote \<or> c = CHR ''-'' \<or> is_digit c)"

definition no_digit :: "string \<Rightarrow> bool" where
  "no_digit r = (case r of [] \<Rightarrow> True | x # _ \<Rightarrow> \<not> is_digit x)"

definition number_end :: "string \<Rightarrow> bool" where
  "number_end r =
     (case r of [] \<Rightarrow> True
      | x # _ \<Rightarrow> \<not> is_digit x \<and> x \<noteq> CHR ''.'' \<and> x \<noteq> CHR ''e'' \<and> x \<noteq> CHR ''E'')"

definition integer_digits :: "string \<Rightarrow> bool" where
  "integer_digits ds = (ds = ''0'' \<or> (ds \<noteq> [] \<and> (\<forall>c \<in> set ds. is_digit c) \<and> hd ds \<noteq> CHR ''0''))"

text \<open>
  Two parts of \<open>cursorSearch\<close> under names of their own: \<open>searchAfter_of\<close> is the value of
  \<^verbatim>\<open>input.cursor ? this.decodeCursor(input.cursor) : undefined\<close> (or the error thrown there), and
  \<open>search_params\<close> is the object handed to \<^verbatim>\<open>client.search\<close>.
\<close>

definition searchAfter_of :: "CursorSearchInput \<Rightarrow> js_error + json option" where
  "searchAfter_of input =
     (case cursor input of
        None \<Rightarrow> Inr None
      | Some c \<Rightarrow> if c = [] then Inr None else map_sum id Some (decodeCursor c))"

definition search_params :: "string \<Rightarrow> CursorSearchInput \<Rightarrow> json option \<Rightarrow> search_request" where
  "search_params indexPrefix input searchAfter =
     \<lparr>index = indexPrefix @ ''variants*'', query = buildQuery input,
      sort_req = buildSort (sort_in input), size_req = effective_take (take_in input) + 1,
      search_after = body_value (optional_values searchAfter), track_total_hits = True\<rparr>"

section \<open>Example data\<close>

text \<open>
  A request with no field set; a catalogue of three products as the index reports its hits
  under the default sort (product id, variant id), under a sort by price (the numbers 1999,
  2500 and 4000) and under a sort by name; an index that holds a list of hits and answers every request with the first \<open>size\<close>
  of them; and a client whose every call throws.
\<close>

definition plain_request :: CursorSearchInput where
  "plain_request =
     \<lparr>term_in = None, facetValueIds = None, facetValueOperator = None, collectionId = None,
      collectionSlug = None, groupByProduct = None, take_in = None, cursor = None, sort_in = None\<rparr>"

definition three_hits :: "string hit list" where
  "three_hits =
     [\<lparr>document = ''A'', sort_values = Some [JStr ''1'', JStr ''10'']\<rparr>,
      \<lparr>document = ''B'', sort_values = Some [JStr ''2'', JStr ''20'']\<rparr>,
      \<lparr>document = ''C'', sort_values = Some [JStr ''3'', JStr ''30'']\<rparr>]"

definition hits_by_price :: "string hit list" where
  "hits_by_price =
     [\<lparr>document = ''A'', sort_values = Some [JNum (number_value 1999 0), JStr ''1'', JStr ''10'']\<rparr>,
      \<lparr>document = ''B'', sort_values = Some [JNum (number_value 2500 0), JStr ''2'', JStr ''20'']\<rparr>,
      \<lparr>document = ''C'', sort_values = Some [JNum (number_value 4000 0), JStr ''3'', JStr ''30'']\<rparr>]"

definition hits_by_name :: "string hit list" where
  "hits_by_name =
     [\<lparr>document = ''A'', sort_values = Some [JStr ''Apple'', JStr ''1'', JStr ''10'']\<rparr>,
      \<lparr>document = ''B'', sort_values = Some [JStr ''Bread'', JStr ''2'', JStr ''20'']\<rparr>,
      \<lparr>document = ''C'', sort_values = Some [JStr ''Cream'', JStr ''3'', JStr ''30'']\<rparr>]"

definition capped_index :: "'a hit list \<Rightarrow> search_request \<Rightarrow> js_error + 'a search_response" where
  "capped_index docs request =
     Inr \<lparr>hits = take (nat (size_req request)) docs, total = TotalObject (Some (int (length docs)))\<rparr>"

definition failing_client :: "js_error \<Rightarrow> search_request \<Rightarrow> js_error + string search_response" where
  "failing_client e request = Inl e"

section \<open>Properties of the sort composer\<close>

lemma toLowerCase_ASC: "toLowerCase ''ASC'' = ''asc''"
  by code_simp

lemma toLowerCase_DESC: "toLowerCase ''DESC'' = ''desc''"
  by code_simp

lemma order_word: "toLowerCase (sort_order_text d) = (if d = ASC then ''asc'' else ''desc'')"
  by (cases d) (simp_all add: toLowerCase_ASC toLowerCase_DESC)

lemma buildSort_None: "buildSort None = [(''productId'', ''asc''), (''productVariantId'', ''asc'')]"
  by (simp add: buildSort_def)

lemma buildSort_Some:
  "buildSort (Some si) =
     (case name si of None \<Rightarrow> [] | Some d \<Rightarrow> [(''productName.keyword'', if d = ASC then ''asc'' else ''desc'')]) @
     (case price si of None \<Rightarrow> [] | Some d \<Rightarrow> [(''priceWithTax'', if d = ASC then ''asc'' else ''desc'')]) @
     [(''productId'', ''asc''), (''productVariantId'', ''asc'')]"
  by (simp add: buildSort_def order_word split: option.splits)

text \<open>
  C4, as the code has it. The composed sort holds the requested \<open>name\<close> clause and then the
  requested \<open>price\<close> clause, each with the caller's direction in lower case, and after them
  always the same two tiebreaker clauses, \<open>productId\<close> and \<open>productVariantId\<close>, both
  ascending whatever the requested directions are. A requested \<open>createdAt\<close> is not part of
  the result.
\<close>

theorem buildSort_two_tiebreakers:
  "buildSort sortInput =
     (case sortInput of
        None \<Rightarrow> []
      | Some si \<Rightarrow>
          (case name si of None \<Rightarrow> []
           | Some d \<Rightarrow> [(''productName.keyword'', if d = ASC then ''asc'' else ''desc'')]) @
          (case price si of None \<Rightarrow> []
           | Some d \<Rightarrow> [(''priceWithTax'', if d = ASC then ''asc'' else ''desc'')])) @
     [(''productId'', ''asc''), (''productVariantId'', ''asc'')]"
  by (cases sortInput) (simp_all add: buildSort_None buildSort_Some)

theorem buildSort_two_tiebreakers_witness:
  "buildSort (Some \<lparr>name = Some DESC, price = Some ASC, createdAt = Some DESC\<rparr>) =
     [(''productName.keyword'', ''desc''), (''priceWithTax'', ''asc''),
      (''productId'', ''asc''), (''productVariantId'', ''asc'')]"
  using buildSort_two_tiebreakers
    [of "Some \<lparr>name = Some DESC, price = Some ASC, createdAt = Some DESC\<rparr>"]
  by simp

text \<open>
  C4 as stated fails: a request sorted by name alone is answered with its clause followed by
  two appended clauses, not by exactly one.
\<close>

theorem buildSort_one_tiebreaker_counterexample:
  "buildSort (Some \<lparr>name = Some DESC, price = None, createdAt = None\<rparr>) =
     [(''productName.keyword'', ''desc'')] @ [(''productId'', ''asc''), (''productVariantId'', ''asc'')]
   \<and> length (buildSort (Some \<lparr>name = Some DESC, price = None, createdAt = None\<rparr>))
       \<noteq> length [(''productName.keyword'', ''desc'')] + 1"
  by (simp add: buildSort_Some)

section \<open>Properties of the query translator\<close>

lemma clauses_of_simps:
  "clauses_of oc [] = []"
  "clauses_of oc ((oc', xs) # cs) = (if oc' = oc then xs @ clauses_of oc cs else clauses_of oc cs)"
  by (simp_all add: clauses_of_def)

lemma selects_top:
  "selects tm fv d (BoolQ [(Must, m), (Filter, f)]) \<longleftrightarrow>
     list_all (selects tm fv d) m \<and> list_all (selects tm fv d) f"
  by (simp add: bool_selects_def clauses_of_simps list_all_iff)

lemma selects_group_must:
  "selects tm fv d (BoolQ [(Must, map (Term f) ids)]) \<longleftrightarrow> (\<forall>i \<in> set ids. i \<in> set (fv d f))"
  by (simp add: bool_selects_def clauses_of_simps list_all_iff)

lemma selects_group_should:
  "ids \<noteq> [] \<Longrightarrow>
   selects tm fv d (BoolQ [(Should, map (Term f) ids)]) \<longleftrightarrow> (\<exists>i \<in> set ids. i \<in> set (fv d f))"
  by (simp add: bool_selects_def clauses_of_simps list_ex_iff)

text \<open>
  The three fields that \<open>buildQuery\<close> reads: the text term, the facet values and the
  collection id. Such a field is supplied when it is present and not empty (JavaScript
  truthiness of the term and the collection id, a positive length of the facet list). The
  query selects a document exactly when each of these fields that is supplied accepts it:
  the text term, the facet values (all of them under \<open>AND\<close>, at least one otherwise) and
  the collection id. A field that is not supplied puts no condition on the document, and with
  none of the three the query is the \<^verbatim>\<open>match_all\<close> query, which selects every document.
\<close>

theorem buildQuery_groups:
  "(selects tm fv d (buildQuery input) \<longleftrightarrow>
      (\<forall>t. term_in input = Some t \<and> t \<noteq> [] \<longrightarrow> tm t d) \<and>
      (\<forall>ids. facetValueIds input = Some ids \<and> ids \<noteq> [] \<longrightarrow>
         (if facetValueOperator input = Some AND
          then (\<forall>i \<in> set ids. i \<in> set (fv d ''facetValueIds''))
          else (\<exists>i \<in> set ids. i \<in> set (fv d ''facetValueIds'')))) \<and>
      (\<forall>c. collectionId input = Some c \<and> c \<noteq> [] \<longrightarrow> c \<in> set (fv d ''collectionIds'')))
   \<and> ((term_in input = None \<or> term_in input = Some []) \<and>
        (facetValueIds input = None \<or> facetValueIds input = Some []) \<and>
        (collectionId input = None \<or> collectionId input = Some [])
        \<longrightarrow> buildQuery input = BoolQ [(Must, [MatchAll]), (Filter, [])])"
  by (cases "term_in input"; cases "facetValueIds input"; cases "collectionId input")
     (simp_all add: buildQuery_def Let_def selects_top selects_group_must selects_group_should
        del: selects.simps(4))

theorem buildQuery_groups_witness:
  "selects (\<lambda>t d. t = d) (\<lambda>d f. if f = ''facetValueIds'' then [''2''] else [''7'']) ''shirt''
     (buildQuery \<lparr>term_in = Some ''shirt'', facetValueIds = Some [''1'', ''2''],
        facetValueOperator = Some OR, collectionId = Some ''7'', collectionSlug = None,
        groupByProduct = None, take_in = None, cursor = None, sort_in = None\<rparr>)
   \<and> \<not> selects (\<lambda>t d. t = d) (\<lambda>d f. if f = ''facetValueIds'' then [''2''] else [''7'']) ''shirt''
     (buildQuery \<lparr>term_in = Some ''shirt'', facetValueIds = Some [''1'', ''2''],
        facetValueOperator = Some AND, collectionId = Some ''7'', collectionSlug = None,
        groupByProduct = None, take_in = None, cursor = None, sort_in = None\<rparr>)
   \<and> buildQuery \<lparr>term_in = None, facetValueIds = Some [], facetValueOperator = Some AND,
        collectionId = None, collectionSlug = None, groupByProduct = None, take_in = None,
        cursor = None, sort_in = None\<rparr> = BoolQ [(Must, [MatchAll]), (Filter, [])]"
  using
    buildQuery_groups [of "\<lambda>t d. t = d" "\<lambda>d f. if f = ''facetValueIds'' then [''2''] else [''7'']" "''shirt''"
      "\<lparr>term_in = Some ''shirt'', facetValueIds = Some [''1'', ''2''],
        facetValueOperator = Some OR, collectionId = Some ''7'', collectionSlug = None,
        groupByProduct = None, take_in = None, cursor = None, sort_in = None\<rparr>"]
    buildQuery_groups [of "\<lambda>t d. t = d" "\<lambda>d f. if f = ''facetValueIds'' then [''2''] else [''7'']" "''shirt''"
      "\<lparr>term_in = Some ''shirt'', facetValueIds = Some [''1'', ''2''],
        facetValueOperator = Some AND, collectionId = Some ''7'', collectionSlug = None,
        groupByProduct = None, take_in = None, cursor = None, sort_in = None\<rparr>"]
    buildQuery_groups [of "\<lambda>t d. t = d" "\<lambda>d f. if f = ''facetValueIds'' then [''2''] else [''7'']" "''shirt''"
      "\<lparr>term_in = None, facetValueIds = Some [], facetValueOperator = Some AND,
        collectionId = None, collectionSlug = None, groupByProduct = None, take_in = None,
        cursor = None, sort_in = None\<rparr>"]
  by simp

text \<open>
  C7 does not hold of the collection scope given by slug. The request type has two fields
  for the collection, \<open>collectionId\<close> and \<open>collectionSlug\<close> (the README: filter by collection
  slug), and \<open>buildQuery\<close> reads only the first: whatever \<open>collectionSlug\<close> holds, the query
  is the one built without it. So a request that supplies the collection by slug gets no
  collection clause, and a request that supplies nothing else gets the \<^verbatim>\<open>match_all\<close> query,
  which selects the documents of every collection.
\<close>

theorem collection_slug_is_ignored:
  "buildQuery (input\<lparr>collectionSlug := slug\<rparr>) = buildQuery input
   \<and> ((term_in input = None \<or> term_in input = Some []) \<and>
        (facetValueIds input = None \<or> facetValueIds input = Some []) \<and>
        (collectionId input = None \<or> collectionId input = Some [])
        \<longrightarrow> buildQuery (input\<lparr>collectionSlug := slug\<rparr>) = BoolQ [(Must, [MatchAll]), (Filter, [])]
            \<and> selects tm fv d (buildQuery (input\<lparr>collectionSlug := slug\<rparr>)))"
  by (cases "term_in input"; cases "facetValueIds input"; cases "collectionId input")
     (simp_all add: buildQuery_def Let_def selects_top del: selects.simps(4))

theorem collection_slug_is_ignored_witness:
  "buildQuery \<lparr>term_in = None, facetValueIds = None, facetValueOperator = None,
      collectionId = None, collectionSlug = Some ''summer-sale'', groupByProduct = None,
      take_in = None, cursor = None, sort_in = None\<rparr> = BoolQ [(Must, [MatchAll]), (Filter, [])]
   \<and> selects (\<lambda>t d. t = d) (\<lambda>d f. if f = ''collectionSlugs'' then [''winter-coats''] else []) ''parka''
        (buildQuery \<lparr>term_in = None, facetValueIds = None, facetValueOperator = None,
           collectionId = None, collectionSlug = Some ''summer-sale'', groupByProduct = None,
           take_in = None, cursor = None, sort_in = None\<rparr>)"
  using collection_slug_is_ignored
    [where input = "\<lparr>term_in = None, facetValueIds = None, facetValueOperator = None,
          collectionId = None, collectionSlug = None, groupByProduct = None,
          take_in = None, cursor = None, sort_in = None\<rparr>"
       and slug = "Some ''summer-sale''" and tm = "\<lambda>t d. t = d"
       and fv = "\<lambda>d f. if f = ''collectionSlugs'' then [''winter-coats''] else []"
       and d = "''parka''"]
  by (simp add: buildQuery_def bool_selects_def clauses_of_def)

section \<open>Base64 decoding inverts encoding\<close>

lemma of_char_less_256: "(of_char c :: nat) < 256"
proof -
  have "(of_char c :: nat) mod 256 < 256" by simp
  then show ?thesis by (simp only: of_char_mod_256)
qed

lemma b64_value_char: "n < 64 \<Longrightarrow> b64_value (b64_char n) = Some n"
  by (auto simp add: b64_value_def b64_char_def Let_def)

lemma b64_value_pad: "b64_value (CHR ''='') = None"
  by (simp add: b64_value_def)

lemma b64_char_not_pad: "n < 64 \<Longrightarrow> b64_char n \<noteq> CHR ''=''"
  using b64_value_char [of n] b64_value_pad by auto

lemma b64_sextets_less: "\<forall>b \<in> set bs. b < 256 \<Longrightarrow> \<forall>x \<in> set (b64_sextets bs). x < 64"
  by (induction bs rule: b64_sextets.induct) auto

lemma b64_bytes_sextets: "\<forall>b \<in> set bs. b < 256 \<Longrightarrow> b64_bytes (b64_sextets bs) = bs"
  by (induction bs rule: b64_sextets.induct) auto

lemma takeWhile_b64:
  "\<forall>x \<in> set xs. x < 64 \<Longrightarrow>
   takeWhile (\<lambda>c. c \<noteq> CHR ''='') (map b64_char xs @ replicate k (CHR ''='')) = map b64_char xs"
  by (induction xs) (auto simp add: b64_char_not_pad takeWhile_replicate)

lemma map_filter_b64:
  "\<forall>x \<in> set xs. x < 64 \<Longrightarrow> List.map_filter b64_value (map b64_char xs) = xs"
  by (induction xs) (simp_all add: List.map_filter_simps b64_value_char)

lemma base64_roundtrip: "base64_decode (base64_encode s) = s"
proof -
  let ?bs = "map of_char s :: nat list"
  have bytes: "\<forall>b \<in> set ?bs. b < 256"
    by (simp add: of_char_less_256)
  have six: "\<forall>x \<in> set (b64_sextets ?bs). x < 64"
    using b64_sextets_less [OF bytes] .
  have "base64_decode (base64_encode s) = map char_of (b64_bytes (b64_sextets ?bs))"
    by (simp add: base64_decode_def base64_encode_def takeWhile_b64 [OF six] map_filter_b64 [OF six])
  also have "\<dots> = map char_of ?bs"
    by (simp only: b64_bytes_sextets [OF bytes])
  also have "\<dots> = s"
    by (simp add: comp_def)
  finally show ?thesis .
qed

section \<open>Reading back what JSON.stringify wrote\<close>

subsection \<open>Rounding is exact on the doubles\<close>

text \<open>
  The Number value of a fraction whose value is a double is that double: \<open>normal_exponent\<close>
  finds the exponent of the value, and the significand is then the value divided by the power
  of two, with no remainder.
\<close>

lemma scaled_2:
  assumes "scaled 2 a b e = (n, d)" "0 < b"
  shows "0 < d \<and> real_of_int n / real_of_int d = (real_of_int a / real_of_int b) / 2 powi e"
proof (cases "0 \<le> e")
  case True
  then have "n = a" "d = b * 2 ^ nat e" using assms by (simp_all add: scaled_def)
  then show ?thesis using assms(2) True by (simp add: power_int_nonneg_exp)
next
  case False
  then have nd: "n = a * 2 ^ nat (- e)" "d = b" using assms by (simp_all add: scaled_def)
  have "(2::real) powi e = 1 / 2 ^ nat (- e)"
    using False by (simp add: power_int_def field_simps)
  then show ?thesis using assms(2) nd by simp
qed

lemma bitlen_powi:
  assumes "0 < a"
  shows "2 powi (bitlen a - 1) \<le> real_of_int a" "real_of_int a < 2 powi (bitlen a)"
proof -
  have pos: "1 \<le> bitlen a" using assms bitlen_eq_zero_iff [of a] bitlen_nonneg [of a] by linarith
  have b: "2 ^ nat (bitlen a - 1) \<le> a" "a < 2 ^ nat (bitlen a)"
    using bitlen_bounds [OF assms] by auto
  have "real_of_int (2 ^ nat (bitlen a - 1)) \<le> real_of_int a" using b(1) by (simp only: of_int_le_iff)
  then show "2 powi (bitlen a - 1) \<le> real_of_int a" using pos by (simp add: power_int_nonneg_exp)
  have "real_of_int a < real_of_int (2 ^ nat (bitlen a))" using b(2) by (simp only: of_int_less_iff)
  then show "real_of_int a < 2 powi (bitlen a)" using pos by (simp add: power_int_nonneg_exp)
qed

lemma powi2_less: "(2::real) powi x < 2 powi y \<longleftrightarrow> x < y"
proof
  assume "x < y"
  then show "(2::real) powi x < 2 powi y" by (intro power_int_strict_increasing) simp_all
next
  assume a: "(2::real) powi x < 2 powi y"
  show "x < y"
  proof (rule ccontr)
    assume "\<not> x < y"
    then have "(2::real) powi y \<le> 2 powi x" by (intro power_int_increasing) simp_all
    then show False using a by simp
  qed
qed

lemma binade_unique:
  assumes "2 powi x \<le> (q::real)" "q < 2 powi (x + 1)" "2 powi y \<le> q" "q < 2 powi (y + 1)"
  shows "x = y"
proof -
  have "(2::real) powi x < 2 powi (y + 1)" using assms by linarith
  then have "x < y + 1" by (simp only: powi2_less)
  moreover have "(2::real) powi y < 2 powi (x + 1)" using assms by linarith
  then have "y < x + 1" by (simp only: powi2_less)
  ultimately show ?thesis by simp
qed

lemma powi2_diff: "(2::real) powi x / 2 powi y = 2 powi (x - y)"
  by (simp add: power_int_diff)

lemma normal_exponent_bounds:
  assumes "0 < a" "0 < b"
  shows "2 powi (normal_exponent a b + 52) \<le> real_of_int a / real_of_int b"
    and "real_of_int a / real_of_int b < 2 powi (normal_exponent a b + 53)"
proof -
  let ?q = "real_of_int a / real_of_int b"
  define e1 where "e1 = bitlen a - bitlen b - 53"
  obtain n d where nd: "scaled 2 a b e1 = (n, d)" by (cases "scaled 2 a b e1")
  have d: "0 < d" and ratio: "real_of_int n / real_of_int d = ?q / 2 powi e1"
    using scaled_2 [OF nd assms(2)] by auto
  have rb: "0 < real_of_int b" using assms(2) by simp
  have "?q < 2 powi (bitlen a) / 2 powi (bitlen b - 1)"
    using bitlen_powi [OF assms(1)] bitlen_powi [OF assms(2)] assms(1)
    by (intro frac_less) simp_all
  also have "\<dots> = 2 powi (e1 + 54)"
  proof -
    have "bitlen a - (bitlen b - 1) = e1 + 54" by (simp add: e1_def)
    then show ?thesis by (simp only: powi2_diff)
  qed
  finally have upper: "?q < 2 powi (e1 + 54)" .
  have "2 powi (bitlen a - 1) / 2 powi (bitlen b) < ?q"
    using bitlen_powi [OF assms(1)] bitlen_powi [OF assms(2)] rb
    by (intro frac_less2) simp_all
  moreover have "2 powi (bitlen a - 1) / 2 powi (bitlen b) = (2::real) powi (e1 + 52)"
  proof -
    have "bitlen a - 1 - bitlen b = e1 + 52" by (simp add: e1_def)
    then show ?thesis by (simp only: powi2_diff)
  qed
  ultimately have lower: "2 powi (e1 + 52) < ?q" by simp
  have test: "d * 2 ^ 53 \<le> n \<longleftrightarrow> 2 powi (e1 + 53) \<le> ?q"
  proof -
    have "d * 2 ^ 53 \<le> n \<longleftrightarrow> real_of_int (d * 2 ^ 53) \<le> real_of_int n"
      by (simp only: of_int_le_iff)
    also have "\<dots> \<longleftrightarrow> 2 ^ 53 \<le> real_of_int n / real_of_int d"
      using d by (simp add: field_simps)
    also have "\<dots> \<longleftrightarrow> 2 ^ 53 \<le> ?q / 2 powi e1"
      by (simp only: ratio)
    also have "\<dots> \<longleftrightarrow> 2 ^ 53 * 2 powi e1 \<le> ?q"
      by (rule pos_le_divide_eq) simp
    also have "2 ^ 53 * 2 powi e1 = (2::real) powi (e1 + 53)"
      by (simp add: power_int_add)
    finally show ?thesis .
  qed
  have ne: "normal_exponent a b = (if d * 2 ^ 53 \<le> n then e1 + 1 else e1)"
    by (simp add: normal_exponent_def e1_def [symmetric] nd)
  show "2 powi (normal_exponent a b + 52) \<le> ?q"
    using lower test by (simp add: ne add.commute)
  show "?q < 2 powi (normal_exponent a b + 53)"
    using upper test by (simp add: ne add.commute)
qed

lemma round_half_even_exact: "0 < d \<Longrightarrow> round_half_even (m * d) d = m"
  by (simp add: round_half_even_def)

lemma to_number_exact:
  assumes dbl: "is_double (Finite False m e)" and m: "0 < m" and b: "0 < b"
    and val: "real_of_int a / real_of_int b = real_of_int m * 2 powi e"
  shows "to_number a b = Finite False m e"
proof -
  let ?q = "real_of_int a / real_of_int b"
  have range: "m < 2 ^ 53" "- 1074 \<le> e" "e \<le> 971" "m < 2 ^ 52 \<longrightarrow> e = - 1074"
    using dbl by (simp_all add: is_double_def)
  have qpos: "0 < ?q" using val m by simp
  then have a: "0 < a" using b by (simp add: zero_less_divide_iff)
  have rm: "real_of_int m < 2 ^ 53" using range(1) by (metis of_int_less_iff of_int_numeral of_int_power)
  have ex: "binary_exponent a b = e"
  proof (cases "m < 2 ^ 52")
    case False
    then have "2 ^ 52 \<le> real_of_int m" by (metis not_less of_int_le_iff of_int_numeral of_int_power)
    then have "2 ^ 52 * 2 powi e \<le> ?q" using val by simp
    then have lo: "2 powi (e + 52) \<le> ?q" by (simp add: power_int_add)
    have "?q < 2 ^ 53 * 2 powi e" using val rm by simp
    then have hi: "?q < 2 powi (e + 52 + 1)" by (simp add: power_int_add)
    have "normal_exponent a b + 52 = e + 52"
      using normal_exponent_bounds [OF a b] lo hi
      by (intro binade_unique [of _ ?q]) (simp_all add: add.assoc)
    then show ?thesis using range(2) by (simp add: binary_exponent_def)
  next
    case True
    then have e: "e = - 1074" using range(4) by simp
    have "real_of_int m < 2 ^ 52" using True by (metis of_int_less_iff of_int_numeral of_int_power)
    then have "?q < 2 ^ 52 * 2 powi e" using val by simp
    also have "\<dots> = 2 powi (e + 52)" by (simp add: power_int_add)
    finally have "2 powi (normal_exponent a b + 52) < (2::real) powi (e + 52)"
      using normal_exponent_bounds(1) [OF a b] by linarith
    then have "normal_exponent a b < e" by (simp only: powi2_less add_less_cancel_right)
    then show ?thesis using e by (simp add: binary_exponent_def)
  qed
  obtain n d where nd: "scaled 2 a b e = (n, d)" by (cases "scaled 2 a b e")
  have d: "0 < d" and ratio: "real_of_int n / real_of_int d = ?q / 2 powi e"
    using scaled_2 [OF nd b] by auto
  have "real_of_int n / real_of_int d = real_of_int m" using ratio val by simp
  then have "real_of_int n = real_of_int (m * d)" using d by (simp add: field_simps)
  then have n: "n = m * d" by (simp only: of_int_eq_iff)
  have r: "round_half_even n d = m" using round_half_even_exact [OF d] n by simp
  show ?thesis using a range(1,3) by (simp add: to_number_def ex nd r)
qed

subsection \<open>Numbers\<close>

text \<open>
  The reader inverts every layout of \<open>format_decimal\<close>, and every decimal that
  \<open>shortest_decimal\<close> returns has the number as its Number value, so the text of a finite
  double reads back as the same double, except for the negative zero, which is written \<open>0\<close>.
\<close>

lemma digit_char: "0 \<le> d \<Longrightarrow> d < 10 \<Longrightarrow> (of_char (char_of (48 + d :: int) :: char) :: nat) = 48 + nat d"
proof -
  assume a: "0 \<le> d" "d < 10"
  have "(of_char (char_of (48 + d :: int) :: char) :: int) = (48 + d) mod 256"
    by (simp only: of_char_of)
  also have "\<dots> = 48 + d" using a by simp
  finally have "int (of_char (char_of (48 + d :: int) :: char)) = 48 + d"
    by (simp add: of_char_def)
  then show ?thesis using a by linarith
qed

lemma of_char_digit_int: "0 \<le> d \<Longrightarrow> d < 10 \<Longrightarrow> (of_char (char_of (48 + d :: int) :: char) :: int) = 48 + d"
  by (simp only: of_char_of) simp

lemma is_digit_char: "0 \<le> d \<Longrightarrow> d < 10 \<Longrightarrow> is_digit (char_of (48 + d :: int))"
  by (simp add: is_digit_def digit_char)

lemma digits_small: "n < 10 \<Longrightarrow> digits n = [char_of (48 + n)]"
  by (simp add: digits.simps [of n])

lemma digits_large: "\<not> n < 10 \<Longrightarrow> digits n = digits (n div 10) @ [char_of (48 + n mod 10)]"
  by (simp add: digits.simps [of n])

lemma digits_all: "0 \<le> n \<Longrightarrow> \<forall>c \<in> set (digits n). is_digit c"
proof (induction n rule: digits.induct)
  case (1 n)
  show ?case
  proof (cases "n < 10")
    case True
    then show ?thesis using 1(2) by (simp add: digits_small is_digit_char)
  next
    case False
    then have "0 \<le> n div 10" by simp
    then show ?thesis using 1 False by (simp add: digits_large is_digit_char)
  qed
qed

lemma digits_value_snoc: "digits_value (ds @ [c]) = 10 * digits_value ds + (of_char c - 48)"
  by (simp add: digits_value_def)

lemma digits_value_digits: "0 \<le> n \<Longrightarrow> digits_value (digits n) = n"
proof (induction n rule: digits.induct)
  case (1 n)
  show ?case
  proof (cases "n < 10")
    case True
    then show ?thesis using 1(2) by (simp add: digits_small digits_value_def of_char_digit_int)
  next
    case False
    then have "0 \<le> n div 10" by simp
    then have "digits_value (digits n) = 10 * (n div 10) + n mod 10"
      using 1 False by (simp add: digits_large digits_value_snoc of_char_digit_int)
    then show ?thesis by simp
  qed
qed

lemma digits_nonempty: "digits n \<noteq> []"
  by (subst digits.simps) simp

lemma char_by_code: "(of_char c :: nat) = of_char d \<Longrightarrow> c = d"
  by (simp only: of_char_eq_iff)

lemma digits_hd_zero: "0 \<le> n \<Longrightarrow> hd (digits n) = CHR ''0'' \<longleftrightarrow> n = 0"
proof (induction n rule: digits.induct)
  case (1 n)
  show ?case
  proof (cases "n < 10")
    case True
    have "char_of (48 + n) = CHR ''0'' \<longleftrightarrow> (of_char (char_of (48 + n) :: char) :: nat) = of_char (CHR ''0'')"
      by (simp only: of_char_eq_iff)
    then show ?thesis using True 1(2) by (simp add: digits_small digit_char)
  next
    case False
    then have "hd (digits n) = hd (digits (n div 10))"
      by (simp add: digits_large digits_nonempty)
    moreover have "0 \<le> n div 10" "n div 10 \<noteq> 0" using False by simp_all
    ultimately show ?thesis using 1 False by simp
  qed
qed

lemma digits_value_append:
  "digits_value (xs @ ys) = digits_value xs * 10 ^ length ys + digits_value ys"
proof (induction ys rule: rev_induct)
  case Nil
  show ?case by (simp add: digits_value_def)
next
  case (snoc y ys)
  have "digits_value (xs @ ys @ [y]) = 10 * digits_value (xs @ ys) + (of_char y - 48)"
    using digits_value_snoc [of "xs @ ys" y] by simp
  then show ?case using snoc by (simp add: digits_value_snoc algebra_simps)
qed

lemma digits_value_zeros: "digits_value (replicate j (CHR ''0'')) = 0"
  by (induction j) (simp_all add: digits_value_def)

lemma is_digit_zero: "is_digit (CHR ''0'')"
  by (simp add: is_digit_def)

lemma span_digits:
  "\<forall>c \<in> set ds. is_digit c \<Longrightarrow> no_digit r \<Longrightarrow>
   takeWhile is_digit (ds @ r) = ds \<and> dropWhile is_digit (ds @ r) = r"
  by (cases r) (simp_all add: takeWhile_append2 dropWhile_append2 no_digit_def)

lemma no_digit_simps [simp]: "no_digit []" "no_digit (c # r) = (\<not> is_digit c)"
  by (simp_all add: no_digit_def)

lemma number_end_simps: "number_end []"
  "number_end (c # r) = (\<not> is_digit c \<and> c \<noteq> CHR ''.'' \<and> c \<noteq> CHR ''e'' \<and> c \<noteq> CHR ''E'')"
  by (simp_all add: number_end_def)

lemma number_end_no_digit: "number_end r \<Longrightarrow> no_digit r"
  by (cases r) (simp_all add: number_end_simps)

lemma not_digit_chars:
  "\<not> is_digit (CHR ''.'')" "\<not> is_digit (CHR ''e'')" "\<not> is_digit (CHR ''E'')"
  "\<not> is_digit (CHR ''-'')" "\<not> is_digit (CHR ''+'')"
  by (simp_all add: is_digit_def)

lemma read_integer_digits:
  assumes "ds \<noteq> []" "\<forall>c \<in> set ds. is_digit c" "hd ds \<noteq> CHR ''0''" "no_digit r"
  shows "read_integer (ds @ r) = Some (ds, r)"
proof -
  obtain c t where ds: "ds = c # t" using assms(1) by (cases ds) auto
  have "takeWhile is_digit (t @ r) = t \<and> dropWhile is_digit (t @ r) = r"
    using span_digits [of t r] assms(2,4) ds by simp
  then show ?thesis using assms(2,3) ds by (simp add: read_integer_def)
qed

lemma read_integer_zero: "read_integer (CHR ''0'' # r) = Some (''0'', r)"
  by (simp add: read_integer_def is_digit_zero)

lemma read_fraction_digits:
  assumes "ds \<noteq> []" "\<forall>c \<in> set ds. is_digit c" "no_digit r"
  shows "read_fraction (CHR ''.'' # ds @ r) = Some (ds, r)"
  using span_digits [OF assms(2,3)] assms(1) by (simp add: read_fraction_def)

lemma read_fraction_none:
  "(case r of [] \<Rightarrow> True | x # _ \<Rightarrow> x \<noteq> CHR ''.'') \<Longrightarrow> read_fraction r = Some ([], r)"
  by (cases r) (simp_all add: read_fraction_def)

lemma read_exponent_none:
  "(case r of [] \<Rightarrow> True | x # _ \<Rightarrow> x \<noteq> CHR ''e'' \<and> x \<noteq> CHR ''E'') \<Longrightarrow> read_exponent r = Some (0, r)"
  by (cases r) (simp_all add: read_exponent_def)

lemma read_exponent_digits:
  assumes "no_digit r" "0 \<le> n" "sg = CHR ''-'' \<or> sg = CHR ''+''"
  shows "read_exponent (CHR ''e'' # sg # digits n @ r) = Some (if sg = CHR ''-'' then - n else n, r)"
proof -
  have d: "\<forall>c \<in> set (digits n). is_digit c" using assms(2) by (rule digits_all)
  have sp: "takeWhile is_digit (digits n @ r) = digits n" "dropWhile is_digit (digits n @ r) = r"
    using span_digits [OF d assms(1)] by simp_all
  have v: "digits_value (digits n) = n" using assms(2) by (rule digits_value_digits)
  show ?thesis
    using assms(3) by (auto simp add: read_exponent_def sp v digits_nonempty Let_def)
qed

lemma read_exponent_text:
  assumes "no_digit r"
  shows "read_exponent (exponent_text ex @ r) = Some (ex, r)"
proof (cases "ex < 0")
  case True
  then show ?thesis
    using read_exponent_digits [OF assms, of "- ex" "CHR ''-''"] by (simp add: exponent_text_def)
next
  case False
  then show ?thesis
    using read_exponent_digits [OF assms, of ex "CHR ''+''"] by (simp add: exponent_text_def)
qed

lemma is_digit_not_minus: "is_digit c \<Longrightarrow> c \<noteq> CHR ''-''"
  by (auto simp add: is_digit_def)

lemma parse_number_parts:
  assumes i: "integer_digits int_ds" and f: "\<forall>c \<in> set frac_ds. is_digit c" and r: "number_end r"
  shows "parse_number (int_ds @ (if frac_ds = [] then [] else CHR ''.'' # frac_ds) @
            (case ex of None \<Rightarrow> [] | Some x \<Rightarrow> exponent_text x) @ r) =
         Some (number_value (digits_value (int_ds @ frac_ds))
                 ((case ex of None \<Rightarrow> 0 | Some x \<Rightarrow> x) - int (length frac_ds)), r)"
proof -
  let ?e = "(case ex of None \<Rightarrow> [] | Some x \<Rightarrow> exponent_text x) @ r"
  let ?f = "(if frac_ds = [] then [] else CHR ''.'' # frac_ds) @ ?e"
  obtain c t where ct: "int_ds = c # t" and c: "is_digit c"
    using i by (cases int_ds) (auto simp add: integer_digits_def is_digit_zero)
  have nd_r: "no_digit r" using number_end_no_digit [OF r] .
  have nd_e: "no_digit ?e"
    using nd_r by (cases ex) (simp_all add: exponent_text_def not_digit_chars)
  have nd_f: "no_digit ?f"
    using nd_e by (simp add: not_digit_chars)
  have ri: "read_integer (int_ds @ ?f) = Some (int_ds, ?f)"
  proof (cases "int_ds = ''0''")
    case True
    then show ?thesis using read_integer_zero [of ?f] by simp
  next
    case False
    then show ?thesis using i nd_f by (intro read_integer_digits) (simp_all add: integer_digits_def)
  qed
  have rf: "read_fraction ?f = Some (frac_ds, ?e)"
  proof (cases "frac_ds = []")
    case True
    have "case ?e of [] \<Rightarrow> True | x # _ \<Rightarrow> x \<noteq> CHR ''.''"
      using r by (cases ex; cases r) (simp_all add: exponent_text_def number_end_simps)
    then show ?thesis using True read_fraction_none [of ?e] by simp
  next
    case False
    then show ?thesis using read_fraction_digits [OF False f nd_e] by simp
  qed
  have re: "read_exponent ?e = Some ((case ex of None \<Rightarrow> 0 | Some x \<Rightarrow> x), r)"
  proof (cases ex)
    case None
    have "case r of [] \<Rightarrow> True | x # _ \<Rightarrow> x \<noteq> CHR ''e'' \<and> x \<noteq> CHR ''E''"
      using r by (cases r) (simp_all add: number_end_simps)
    then show ?thesis using None read_exponent_none [of r] by simp
  next
    case (Some x)
    then show ?thesis using read_exponent_text [OF nd_r, of x] by simp
  qed
  have minus: "(case int_ds @ ?f of c # _ \<Rightarrow> c = CHR ''-'' | [] \<Rightarrow> False) = False"
    using ct is_digit_not_minus [OF c] by simp
  show ?thesis
    unfolding parse_number_def minus Let_def by (simp add: ri rf re)
qed

lemma parse_plain_text:
  assumes "integer_digits i" "number_end r"
  shows "parse_number (i @ r) = Some (number_value (digits_value i) 0, r)"
  using parse_number_parts [OF assms(1) _ assms(2), of "[]" None] by simp

lemma parse_point_text:
  assumes "integer_digits i" "\<forall>c \<in> set f. is_digit c" "f \<noteq> []" "number_end r"
  shows "parse_number (i @ CHR ''.'' # f @ r) = Some (number_value (digits_value (i @ f)) (- int (length f)), r)"
  using parse_number_parts [OF assms(1,2,4), of None] assms(3) by simp

lemma parse_exponent_text:
  assumes "integer_digits i" "number_end r"
  shows "parse_number (i @ exponent_text x @ r) = Some (number_value (digits_value i) x, r)"
  using parse_number_parts [OF assms(1) _ assms(2), of "[]" "Some x"] by simp

lemma parse_point_exponent_text:
  assumes "integer_digits i" "\<forall>c \<in> set f. is_digit c" "f \<noteq> []" "number_end r"
  shows "parse_number (i @ CHR ''.'' # f @ exponent_text x @ r) =
           Some (number_value (digits_value (i @ f)) (x - int (length f)), r)"
  using parse_number_parts [OF assms(1,2,4), of "Some x"] assms(3) by simp

lemma number_value_shift: "0 \<le> j \<Longrightarrow> number_value (s * 10 ^ nat j) 0 = number_value s j"
  by (simp add: number_value_def scaled_def)

lemma digits_integer: "0 < s \<Longrightarrow> integer_digits (digits s)"
  using digits_all [of s] digits_hd_zero [of s] digits_nonempty [of s]
  by (simp add: integer_digits_def)

lemma parse_format:
  assumes s: "0 < s" and r: "number_end r"
  shows "parse_number (format_decimal (digits s) n @ r) =
           Some (number_value s (n - int (length (digits s))), r)"
proof -
  let ?ds = "digits s"
  let ?k = "int (length ?ds)"
  have ne: "?ds \<noteq> []" by (rule digits_nonempty)
  have dg: "\<forall>c \<in> set ?ds. is_digit c" using s by (intro digits_all) simp
  have hd: "hd ?ds \<noteq> CHR ''0''" using s digits_hd_zero [of s] by simp
  have v: "digits_value ?ds = s" using s by (intro digits_value_digits) simp
  have k: "1 \<le> ?k" using ne by (cases ?ds) simp_all
  consider (plain) "?k \<le> n" "n \<le> 21"
    | (point) "0 < n" "n < ?k" "n \<le> 21"
    | (small) "- 6 < n" "n \<le> 0"
    | (exp1) "\<not> (?k \<le> n \<and> n \<le> 21)" "\<not> (0 < n \<and> n \<le> 21)" "\<not> (- 6 < n \<and> n \<le> 0)" "?k = 1"
    | (exp) "\<not> (?k \<le> n \<and> n \<le> 21)" "\<not> (0 < n \<and> n \<le> 21)" "\<not> (- 6 < n \<and> n \<le> 0)" "?k \<noteq> 1"
    by linarith
  then show ?thesis
  proof cases
    case plain
    let ?z = "replicate (nat (n - ?k)) (CHR ''0'')"
    have shape: "format_decimal ?ds n = ?ds @ ?z"
      using plain by (simp add: format_decimal_def)
    have i: "integer_digits (?ds @ ?z)"
      using ne dg hd by (auto simp add: integer_digits_def is_digit_zero)
    have val: "digits_value (?ds @ ?z) = s * 10 ^ nat (n - ?k)"
      by (simp add: digits_value_append digits_value_zeros v)
    have "parse_number ((?ds @ ?z) @ r) = Some (number_value s (n - ?k), r)"
      using plain number_value_shift [of "n - ?k" s]
      by (simp only: parse_plain_text [OF i r] val)
    then show ?thesis by (simp only: shape)
  next
    case point
    let ?i = "take (nat n) ?ds" and ?f = "drop (nat n) ?ds"
    have shape: "format_decimal ?ds n = ?i @ CHR ''.'' # ?f"
      using point by (simp add: format_decimal_def)
    have i: "integer_digits ?i"
      using ne dg hd point by (auto simp add: integer_digits_def dest: in_set_takeD)
    have f: "\<forall>c \<in> set ?f. is_digit c" using dg by (auto dest: in_set_dropD)
    have fne: "?f \<noteq> []" using point by simp
    have len: "- int (length ?f) = n - ?k" using point by simp
    have val: "digits_value (?i @ ?f) = s" using v by simp
    have "parse_number (?i @ CHR ''.'' # ?f @ r) = Some (number_value s (n - ?k), r)"
      by (simp only: parse_point_text [OF i f fne r] val len)
    then show ?thesis by (simp only: shape append.simps append_assoc)
  next
    case small
    let ?f = "replicate (nat (- n)) (CHR ''0'') @ ?ds"
    have shape: "format_decimal ?ds n = ''0'' @ CHR ''.'' # ?f"
      using small k by (simp add: format_decimal_def)
    have i: "integer_digits ''0''" by (simp add: integer_digits_def)
    have f: "\<forall>c \<in> set ?f. is_digit c" using dg by (auto simp add: is_digit_zero)
    have fne: "?f \<noteq> []" using ne by simp
    have len: "- int (length ?f) = n - ?k" using small by simp
    have val: "digits_value (''0'' @ ?f) = s"
      using digits_value_append [of "CHR ''0'' # replicate (nat (- n)) (CHR ''0'')" ?ds]
        digits_value_zeros [of "Suc (nat (- n))"] v by simp
    have "parse_number (''0'' @ CHR ''.'' # ?f @ r) = Some (number_value s (n - ?k), r)"
      by (simp only: parse_point_text [OF i f fne r] val len)
    then show ?thesis by (simp only: shape append.simps append_assoc)
  next
    case exp1
    have shape: "format_decimal ?ds n = ?ds @ exponent_text (n - 1)"
      using exp1 by (auto simp add: format_decimal_def)
    have i: "integer_digits ?ds" using s by (rule digits_integer)
    have "parse_number (?ds @ exponent_text (n - 1) @ r) = Some (number_value s (n - ?k), r)"
      using exp1(4) by (simp only: parse_exponent_text [OF i r] v)
    then show ?thesis by (simp only: shape append_assoc)
  next
    case exp
    obtain c t where ct: "?ds = c # t" using ne by (cases ?ds) auto
    have t: "t \<noteq> []" using exp(4) ct by auto
    have shape: "format_decimal ?ds n = [c] @ CHR ''.'' # t @ exponent_text (n - 1)"
      using exp ct by (auto simp add: format_decimal_def)
    have i: "integer_digits [c]" using dg hd ct by (simp add: integer_digits_def)
    have f: "\<forall>x \<in> set t. is_digit x" using dg ct by simp
    have val: "digits_value ([c] @ t) = s" using v ct by simp
    have len: "n - 1 - int (length t) = n - ?k" using ct by simp
    have "parse_number ([c] @ CHR ''.'' # t @ exponent_text (n - 1) @ r) = Some (number_value s (n - ?k), r)"
      by (simp only: parse_point_exponent_text [OF i f t r] val len)
    then show ?thesis by (simp only: shape append.simps append_assoc)
  qed
qed

lemma scaled_nonneg:
  assumes "0 \<le> a" "0 < b" "0 < base" "scaled base a b e = (n, d)"
  shows "0 \<le> n \<and> 0 < d"
  using assms by (cases "0 \<le> e") (auto simp add: scaled_def)

lemma number_value_zero: "number_value 0 p = Finite False 0 (- 1074)"
  by (simp add: number_value_def scaled_def to_number_def)

lemma exact_decimal_valid:
  assumes dbl: "is_double (Finite False m e)" and m: "0 < m"
  shows "number_value (fst (exact_decimal m e)) (snd (exact_decimal m e)) = Finite False m e"
proof (cases "0 \<le> e")
  case True
  have "real_of_int (m * 2 ^ nat e) / real_of_int 1 = real_of_int m * 2 powi e"
    using True by (simp add: power_int_nonneg_exp)
  then have "to_number (m * 2 ^ nat e) 1 = Finite False m e"
    using to_number_exact [OF dbl m, of 1 "m * 2 ^ nat e"] by simp
  then show ?thesis using True by (simp add: exact_decimal_def number_value_def scaled_def)
next
  case False
  let ?j = "nat (- e)"
  have p: "(2::real) powi e = 1 / 2 ^ ?j"
    using False by (simp add: power_int_def field_simps)
  have "(10::real) ^ ?j = 2 ^ ?j * 5 ^ ?j"
    by (simp flip: power_mult_distrib)
  then have "real_of_int (m * 5 ^ ?j) / real_of_int (10 ^ ?j) = real_of_int m * 2 powi e"
    by (simp add: p)
  then have "to_number (m * 5 ^ ?j) (10 ^ ?j) = Finite False m e"
    using to_number_exact [OF dbl m, of "10 ^ ?j" "m * 5 ^ ?j"] by simp
  then show ?thesis using False by (simp add: exact_decimal_def number_value_def scaled_def)
qed

lemma exact_decimal_positive: "0 < m \<Longrightarrow> 0 < fst (exact_decimal m e)"
  by (simp add: exact_decimal_def)

lemma shortest_decimal_step:
  assumes m: "0 < m" and sh: "shortest_decimal (Suc fuel) m e n k = (s, p)"
  shows "(number_value s p = Finite False m e \<and> 0 \<le> s) \<or> shortest_decimal fuel m e n (Suc k) = (s, p)"
proof -
  obtain vn vd where v: "scaled 2 m 1 (- e) = (vn, vd)" by (cases "scaled 2 m 1 (- e)")
  have vpos: "0 \<le> vn \<and> 0 < vd" using scaled_nonneg [OF _ _ _ v] m by simp
  obtain N D where nd: "scaled 10 vn vd (n - int k) = (N, D)" by (cases "scaled 10 vn vd (n - int k)")
  have "0 \<le> N \<and> 0 < D" using scaled_nonneg [OF _ _ _ nd] vpos by simp
  then have lo: "0 \<le> N div D" by (simp add: pos_imp_zdiv_nonneg_iff)
  show ?thesis
    using sh lo by (auto simp add: v nd Let_def split: if_splits)
qed

lemma shortest_decimal_valid:
  assumes dbl: "is_double (Finite False m e)" and m: "0 < m"
  shows "shortest_decimal fuel m e n k = (s, p) \<Longrightarrow> number_value s p = Finite False m e \<and> 0 < s"
proof (induction fuel arbitrary: k)
  case 0
  then show ?case
    using exact_decimal_valid [OF dbl m] exact_decimal_positive [OF m, of e] by simp
next
  case (Suc fuel)
  from shortest_decimal_step [OF m Suc.prems]
  show ?case
  proof
    assume a: "number_value s p = Finite False m e \<and> 0 \<le> s"
    have "s \<noteq> 0" using a m number_value_zero [of p] by auto
    then show ?thesis using a by simp
  next
    assume "shortest_decimal fuel m e n (Suc k) = (s, p)"
    then show ?thesis by (rule Suc.IH)
  qed
qed

lemma parse_number_minus_eq:
  "c \<noteq> CHR ''-'' \<Longrightarrow>
   parse_number (CHR ''-'' # c # t) = map_option (apfst negate) (parse_number (c # t))"
  by (auto simp add: parse_number_def Let_def split: option.split prod.split)

lemma parse_number_minus:
  assumes "parse_number (c # t) = Some (x, r)" "is_digit c"
  shows "parse_number (CHR ''-'' # c # t) = Some (negate x, r)"
  using assms(1) parse_number_minus_eq [OF is_digit_not_minus [OF assms(2)], of t] by simp

lemma format_decimal_start:
  assumes "0 < s"
  shows "\<exists>c t. format_decimal (digits s) n = c # t \<and> is_digit c"
proof -
  obtain c t where ct: "digits s = c # t" using digits_nonempty [of s] by (cases "digits s") auto
  have c: "is_digit c" using digits_all [of s] assms ct by simp
  have "take (nat n) (c # t) = c # take (nat n - 1) t" if "0 < n"
    using that by (cases "nat n") simp_all
  then show ?thesis
    using c by (auto simp add: format_decimal_def Let_def ct is_digit_zero)
qed

lemma parse_number_text:
  assumes dbl: "is_double (Finite neg m e)" and r: "number_end r"
  shows "parse_number (number_text (Finite neg m e) @ r) =
           Some (if m = 0 then Finite False 0 (- 1074) else Finite neg m e, r)"
proof (cases "m = 0")
  case True
  have "parse_number (''0'' @ r) = Some (number_value (digits_value ''0'') 0, r)"
    by (rule parse_plain_text) (simp_all add: integer_digits_def r)
  then show ?thesis using True by (simp add: number_text_def digits_value_def number_value_zero)
next
  case False
  then have m: "0 < m" using dbl by (simp add: is_double_def)
  have dbl': "is_double (Finite False m e)" using dbl by (simp add: is_double_def)
  obtain vn vd where v: "scaled 2 m 1 (- e) = (vn, vd)" by (cases "scaled 2 m 1 (- e)")
  obtain s p where sp: "shortest_decimal 17 m e (decimal_exponent vn vd) 1 = (s, p)"
    by (cases "shortest_decimal 17 m e (decimal_exponent vn vd) 1")
  have valid: "number_value s p = Finite False m e" and s: "0 < s"
    using shortest_decimal_valid [OF dbl' m sp] by simp_all
  let ?t = "format_decimal (digits s) (p + int (length (digits s)))"
  have pos: "parse_number (?t @ r) = Some (Finite False m e, r)"
    using parse_format [OF s r, of "p + int (length (digits s))"] valid by simp
  have shape: "number_text (Finite neg m e) = (if neg then CHR ''-'' # ?t else ?t)"
    using False sp by (simp add: number_text_def v)
  show ?thesis
  proof (cases neg)
    case False
    then show ?thesis using pos shape \<open>m \<noteq> 0\<close> by simp
  next
    case True
    obtain c t where ct: "?t = c # t" and c: "is_digit c"
      using format_decimal_start [OF s] by blast
    have "parse_number (CHR ''-'' # c # t @ r) = Some (negate (Finite False m e), r)"
      using pos c by (intro parse_number_minus) (simp_all add: ct)
    then show ?thesis using True shape \<open>m \<noteq> 0\<close> by (simp add: ct)
  qed
qed

text \<open>
  Every number that the reader returns is a double: rounding yields a significand and an
  exponent in the range of the doubles.
\<close>

lemma round_half_even_bounds:
  assumes "0 < d"
  shows "n div d \<le> round_half_even n d" "round_half_even n d \<le> n div d + 1"
  by (simp_all add: round_half_even_def Let_def)

lemma div_as_floor: "n div d = \<lfloor>real_of_int n / real_of_int d\<rfloor>"
  by (simp add: floor_divide_of_int_eq)

lemma to_number_double:
  assumes a: "0 \<le> a" and b: "0 < b"
  shows "is_double (to_number a b)"
proof (cases "a = 0")
  case True
  then show ?thesis by (simp add: to_number_def is_double_def)
next
  case False
  then have apos: "0 < a" using a by simp
  let ?q = "real_of_int a / real_of_int b"
  let ?e = "binary_exponent a b"
  obtain n d where nd: "scaled 2 a b ?e = (n, d)" by (cases "scaled 2 a b ?e")
  have d: "0 < d" and ratio: "real_of_int n / real_of_int d = ?q / 2 powi ?e"
    using scaled_2 [OF nd b] by auto
  have e_low: "- 1074 \<le> ?e" and e_ge: "normal_exponent a b \<le> ?e"
    by (simp_all add: binary_exponent_def)
  have "?q < 2 powi (normal_exponent a b + 53)"
    using normal_exponent_bounds(2) [OF apos b] .
  also have "\<dots> \<le> 2 powi (?e + 53)"
    using e_ge by (intro power_int_increasing) simp_all
  also have "\<dots> = 2 ^ 53 * 2 powi ?e" by (simp add: power_int_add)
  finally have "?q < 2 ^ 53 * 2 powi ?e" .
  then have "?q / 2 powi ?e < 2 ^ 53" by (subst pos_divide_less_eq) simp_all
  then have upper: "real_of_int n / real_of_int d < 2 ^ 53" by (simp only: ratio)
  have lower: "2 ^ 52 \<le> real_of_int n / real_of_int d" if "- 1074 < ?e"
  proof -
    have eq: "?e = normal_exponent a b" using that by (simp add: binary_exponent_def max_def split: if_splits)
    have "2 ^ 52 * 2 powi ?e = (2::real) powi (normal_exponent a b + 52)"
      by (simp add: eq power_int_add)
    also have "\<dots> \<le> ?q" using normal_exponent_bounds(1) [OF apos b] .
    finally have "2 ^ 52 * 2 powi ?e \<le> ?q" .
    then have "2 ^ 52 \<le> ?q / 2 powi ?e" by (subst pos_le_divide_eq) simp_all
    then show ?thesis by (simp only: ratio)
  qed
  have nn: "0 \<le> real_of_int n / real_of_int d"
    using ratio apos b by simp
  let ?f = "n div d"
  have f_upper: "?f < 2 ^ 53"
    unfolding div_as_floor using upper by (simp add: floor_less_iff)
  have f_nonneg: "0 \<le> ?f"
    unfolding div_as_floor using nn by simp
  have f_lower: "2 ^ 52 \<le> ?f" if "- 1074 < ?e"
    unfolding div_as_floor using lower [OF that] by (simp add: le_floor_iff)
  let ?m = "round_half_even n d"
  have m: "?f \<le> ?m" "?m \<le> ?f + 1" using round_half_even_bounds [OF d] by simp_all
  have m_range: "0 \<le> ?m" "?m \<le> 2 ^ 53" using m f_upper f_nonneg by simp_all
  have m_normal: "2 ^ 52 \<le> ?m" if "- 1074 < ?e" using m f_lower [OF that] by simp
  have sub: "?m < 2 ^ 52 \<longrightarrow> ?e = - 1074" using m_normal e_low by force
  show ?thesis
    using False m_range e_low sub
    by (simp add: to_number_def nd is_double_def Let_def)
qed

lemma number_value_double: "0 \<le> s \<Longrightarrow> is_double (number_value s p)"
  by (cases "0 \<le> - p") (simp_all add: number_value_def scaled_def to_number_double)

lemma digits_value_nonneg: "\<forall>c \<in> set ds. is_digit c \<Longrightarrow> 0 \<le> digits_value ds"
proof (induction ds rule: rev_induct)
  case Nil
  show ?case by (simp add: digits_value_def)
next
  case (snoc c ds)
  have "int (of_char c) = of_char c" by (rule of_nat_of_char)
  moreover have "48 \<le> (of_char c :: nat)" using snoc.prems by (simp add: is_digit_def)
  ultimately have "48 \<le> (of_char c :: int)" by linarith
  then show ?case using snoc by (simp add: digits_value_snoc)
qed

lemma negate_double: "is_double x \<Longrightarrow> is_double (negate x)"
  by (cases x) (simp_all add: is_double_def)

lemma read_integer_digits_only: "read_integer s = Some (ds, r) \<Longrightarrow> \<forall>c \<in> set ds. is_digit c"
  by (cases s) (auto simp add: read_integer_def split: if_splits dest: set_takeWhileD)

lemma read_fraction_digits_only: "read_fraction s = Some (ds, r) \<Longrightarrow> \<forall>c \<in> set ds. is_digit c"
  by (cases s) (auto simp add: read_fraction_def split: if_splits dest: set_takeWhileD)

lemma parse_number_double:
  assumes "parse_number s = Some (x, r)"
  shows "is_double x"
proof -
  define s1 where "s1 = (if (case s of c # _ \<Rightarrow> c = CHR ''-'' | [] \<Rightarrow> False) then tl s else s)"
  obtain i r1 where i: "read_integer s1 = Some (i, r1)"
    using assms unfolding parse_number_def Let_def s1_def [symmetric]
    by (cases "read_integer s1") auto
  obtain f r2 where f: "read_fraction r1 = Some (f, r2)"
    using assms i unfolding parse_number_def Let_def s1_def [symmetric]
    by (cases "read_fraction r1") auto
  obtain ex r3 where e: "read_exponent r2 = Some (ex, r3)"
    using assms i f unfolding parse_number_def Let_def s1_def [symmetric]
    by (cases "read_exponent r2") auto
  let ?v = "number_value (digits_value (i @ f)) (ex - int (length f))"
  have "\<forall>c \<in> set (i @ f). is_digit c"
    using read_integer_digits_only [OF i] read_fraction_digits_only [OF f] by auto
  then have "is_double ?v"
    by (intro number_value_double digits_value_nonneg)
  moreover have "x = ?v \<or> x = negate ?v"
    using assms i f e unfolding parse_number_def Let_def s1_def [symmetric] by (auto split: if_splits)
  ultimately show ?thesis using negate_double by auto
qed

subsection \<open>Strings\<close>

lemma hex_value_digit: "k < 16 \<Longrightarrow> hex_value (hex_digit k) = Some k"
  by (auto simp add: hex_value_def hex_digit_def Let_def)

lemma hex_value_zero: "hex_value (CHR ''0'') = Some 0"
  by (simp add: hex_value_def)

lemma unicode_escape_control:
  assumes "(of_char c :: nat) < 32"
  shows "unicode_escape [CHR ''0'', CHR ''0'', hex_digit (of_char c div 16), hex_digit (of_char c mod 16)] =
           Some (of_char c)"
proof -
  let ?n = "of_char c :: nat"
  have "?n div 16 < 16" "?n mod 16 < 16" using assms by auto
  then have "unicode_escape [CHR ''0'', CHR ''0'', hex_digit (?n div 16), hex_digit (?n mod 16)]
      = Some (?n div 16 * 16 + ?n mod 16)"
    by (simp add: unicode_escape_def hex_value_digit hex_value_zero)
  then show ?thesis by simp
qed

lemma utf8_ascii: "(of_char c :: nat) < 128 \<Longrightarrow> utf8 (of_char c) = [c]"
  by (simp add: utf8_def)

lemma parse_string_body_quote_char:
  assumes "parse_string_body t = Some (s, rest)"
  shows "parse_string_body (quote_char c @ t) = Some (c # s, rest)"
proof -
  let ?n = "of_char c :: nat"
  consider (dq) "c = dquote" | (bs) "c = backslash"
    | (b) "?n = 8" | (t) "?n = 9" | (n) "?n = 10" | (f) "?n = 12" | (r) "?n = 13"
    | (u) "?n < 32" "?n \<noteq> 8" "?n \<noteq> 9" "?n \<noteq> 10" "?n \<noteq> 12" "?n \<noteq> 13"
    | (plain) "c \<noteq> dquote" "c \<noteq> backslash" "\<not> ?n < 32"
    by fastforce
  then show ?thesis
  proof cases
    case dq
    then show ?thesis using assms by (simp add: quote_char_def)
  next
    case bs
    then show ?thesis using assms by (simp add: quote_char_def)
  next
    case b
    then have "c = CHR 0x08" by (intro char_by_code) simp
    then show ?thesis using assms by (simp add: quote_char_def)
  next
    case t
    then have "c = CHR 0x09" by (intro char_by_code) simp
    then show ?thesis using assms by (simp add: quote_char_def)
  next
    case n
    then have "c = CHR 0x0A" by (intro char_by_code) simp
    then show ?thesis using assms by (simp add: quote_char_def)
  next
    case f
    then have "c = CHR 0x0C" by (intro char_by_code) simp
    then show ?thesis using assms by (simp add: quote_char_def)
  next
    case r
    then have "c = CHR 0x0D" by (intro char_by_code) simp
    then show ?thesis using assms by (simp add: quote_char_def)
  next
    case u
    have ne: "c \<noteq> dquote" "c \<noteq> backslash" using u(1) by auto
    have "utf8 (of_char c) = [c]" using u(1) by (intro utf8_ascii) simp
    then show ?thesis using assms u ne unicode_escape_control [OF u(1)]
      by (simp add: quote_char_def Let_def)
  next
    case plain
    then show ?thesis using assms by (simp add: quote_char_def Let_def)
  qed
qed

lemma parse_string_body_quoted:
  "parse_string_body (concat (map quote_char s) @ dquote # rest) = Some (s, rest)"
  by (induction s) (simp_all add: parse_string_body_quote_char)

subsection \<open>Scalars and arrays of scalars\<close>

lemma parse_number_start:
  assumes "parse_number s = Some (x, r)"
  shows "\<exists>c t. s = c # t \<and> (c = CHR ''-'' \<or> is_digit c)"
proof (cases s)
  case Nil
  then show ?thesis using assms by (simp add: parse_number_def read_integer_def)
next
  case (Cons c t)
  have "is_digit c" if "c \<noteq> CHR ''-''"
    using assms that Cons
    by (auto simp add: parse_number_def read_integer_def Let_def split: option.splits if_splits)
  then show ?thesis using Cons by blast
qed

lemma number_text_start:
  assumes "is_double (Finite neg m e)"
  shows "\<exists>c t. number_text (Finite neg m e) = c # t \<and> (c = CHR ''-'' \<or> is_digit c)"
  using parse_number_text [OF assms, of "[]"] parse_number_start [of "number_text (Finite neg m e)"]
  by (simp add: number_end_simps)

lemma stringify_start: "sort_value v \<Longrightarrow> \<exists>c t. stringify v = c # t \<and> value_start c"
proof (cases v)
  case (JNum x)
  assume sv: "sort_value v"
  show ?thesis
  proof (cases x)
    case (Finite neg m e)
    then obtain c t where "number_text x = c # t" "c = CHR ''-'' \<or> is_digit c"
      using number_text_start [of neg m e] sv JNum by auto
    then show ?thesis using JNum Finite by (simp add: value_start_def)
  qed (simp_all add: JNum value_start_def)
qed (auto simp add: value_start_def quote_string_def)

lemma skip_ws_start: "value_start c \<Longrightarrow> skip_ws (c # t) = c # t"
  by (auto simp add: value_start_def skip_ws_def is_ws_def is_digit_def)

lemma parse_value_number:
  assumes "is_double (Finite neg m e)" "number_end r"
  shows "parse_value (Suc n) (number_text (Finite neg m e) @ r) = Some (json_image (JNum (Finite neg m e)), r)"
proof -
  obtain c t where ct: "number_text (Finite neg m e) = c # t" and c: "c = CHR ''-'' \<or> is_digit c"
    using number_text_start [OF assms(1)] by blast
  have ws: "skip_ws (c # t @ r) = c # t @ r"
    using c skip_ws_start [of c "t @ r"] by (auto simp add: value_start_def)
  have ne: "c \<noteq> CHR ''{''" "c \<noteq> CHR ''[''" "c \<noteq> dquote"
    using c by (auto simp add: is_digit_def)
  have "parse_value (Suc n) (c # t @ r) = map_option (apfst JNum) (parse_number (c # t @ r))"
    using c ne by (simp add: ws)
  then show ?thesis using parse_number_text [OF assms] by (simp add: ct)
qed

lemma parse_value_scalar:
  assumes "sort_value v" "number_end r"
  shows "parse_value (Suc n) (stringify v @ r) = Some (json_image v, r)"
proof (cases v)
  case JNull
  then show ?thesis by (simp add: skip_ws_def is_ws_def is_digit_def)
next
  case (JBool b)
  then show ?thesis by (simp add: skip_ws_def is_ws_def is_digit_def)
next
  case (JNum x)
  show ?thesis
  proof (cases x)
    case (Finite neg m e)
    then show ?thesis using parse_value_number [OF _ assms(2), of neg m e n] assms(1) JNum by simp
  qed (simp_all add: JNum skip_ws_def is_ws_def is_digit_def)
next
  case (JStr s)
  then show ?thesis
    by (simp add: quote_string_def skip_ws_def is_ws_def parse_string_body_quoted)
next
  case (JArr vs)
  then show ?thesis using assms(1) by simp
next
  case (JObj kvs)
  then show ?thesis using assms(1) by simp
qed

lemma number_end_delims:
  "number_end (CHR '','' # r)" "number_end (CHR '']'' # r)" "number_end (CHR ''}'' # r)" "number_end []"
  by (simp_all add: number_end_def is_digit_def)

lemma skip_ws_delims:
  "skip_ws (CHR '','' # r) = CHR '','' # r" "skip_ws (CHR '']'' # r) = CHR '']'' # r"
  "skip_ws (CHR ''}'' # r) = CHR ''}'' # r" "skip_ws (CHR '':'' # r) = CHR '':'' # r"
  "skip_ws (dquote # r) = dquote # r"
  by (simp_all add: skip_ws_def is_ws_def)

lemma parse_elements_scalars:
  "list_all sort_value vs \<Longrightarrow> vs \<noteq> [] \<Longrightarrow> length vs \<le> n \<Longrightarrow>
   parse_elements (Suc n) (join_comma (map stringify vs) @ CHR '']'' # r) = Some (map json_image vs, r)"
proof (induction vs arbitrary: n)
  case Nil
  then show ?case by simp
next
  case (Cons v ws)
  obtain m where n: "n = Suc m" using Cons.prems(3) by (cases n) auto
  show ?case
  proof (cases ws)
    case Nil
    have "parse_value (Suc m) (stringify v @ CHR '']'' # r) = Some (json_image v, CHR '']'' # r)"
      using Cons.prems(1) by (intro parse_value_scalar) (simp_all add: number_end_delims)
    then show ?thesis using Nil n by (simp add: skip_ws_delims del: stringify.simps json_image.simps)
  next
    case (Cons w ws')
    let ?rest = "join_comma (map stringify ws) @ CHR '']'' # r"
    have v: "parse_value (Suc m) (stringify v @ CHR '','' # ?rest) = Some (json_image v, CHR '','' # ?rest)"
      using Cons.prems(1) by (intro parse_value_scalar) (simp_all add: number_end_delims)
    have ws: "parse_elements (Suc m) ?rest = Some (map json_image ws, r)"
      using Cons.prems Cons.IH [of m] Cons n by simp
    show ?thesis using v ws Cons n
      by (simp add: skip_ws_delims del: stringify.simps json_image.simps parse_value.simps parse_elements.simps(2))
         (simp add: skip_ws_delims del: stringify.simps json_image.simps parse_value.simps)
  qed
qed

lemma parse_value_array:
  assumes "list_all sort_value vs" "length vs \<le> n"
  shows "parse_value (Suc (Suc n)) (stringify (JArr vs) @ r) = Some (JArr (map json_image vs), r)"
proof (cases vs)
  case Nil
  then show ?thesis by (simp add: skip_ws_def is_ws_def)
next
  case (Cons v ws)
  obtain c t where ct: "stringify v = c # t" and c: "value_start c"
    using stringify_start [of v] assms(1) Cons by auto
  let ?body = "join_comma (map stringify vs) @ CHR '']'' # r"
  have "\<exists>t'. ?body = c # t'"
    using Cons ct by (cases ws) simp_all
  then obtain t' where body: "?body = c # t'" by blast
  have c': "c \<noteq> CHR '']''" using c by (auto simp add: value_start_def is_digit_def)
  have el: "parse_elements (Suc n) ?body = Some (map json_image vs, r)"
    using parse_elements_scalars [OF assms(1) _ assms(2)] Cons by simp
  have "parse_value (Suc (Suc n)) (CHR ''['' # ?body) = Some (JArr (map json_image vs), r)"
    using el c' skip_ws_start [OF c, of t']
    by (simp add: skip_ws_def is_ws_def body del: parse_elements.simps)
  then show ?thesis by simp
qed

subsection \<open>The cursor object\<close>

lemma parse_members_last:
  assumes "parse_value n t = Some (v, CHR ''}'' # r)"
  shows "parse_members (Suc n) (quote_string k @ CHR '':'' # t) = Some ([(k, v)], r)"
  using assms
  by (simp add: quote_string_def parse_string_body_quoted skip_ws_delims del: parse_value.simps)

lemma parse_members_more:
  assumes "parse_value n t = Some (v, CHR '','' # t')" "parse_members n t' = Some (kvs, r)"
  shows "parse_members (Suc n) (quote_string k @ CHR '':'' # t) = Some ((k, v) # kvs, r)"
  using assms
  by (subst parse_members.simps(2))
     (simp add: quote_string_def parse_string_body_quoted skip_ws_delims
        del: parse_value.simps parse_members.simps(2))

lemma format_decimal_nonempty: "ds \<noteq> [] \<Longrightarrow> format_decimal ds n \<noteq> []"
  by (auto simp add: format_decimal_def Let_def)

lemma number_text_nonempty: "number_text x \<noteq> []"
proof (cases x)
  case (Finite neg m e)
  obtain vn vd where v: "scaled 2 m 1 (- e) = (vn, vd)" by (cases "scaled 2 m 1 (- e)")
  obtain s p where sp: "shortest_decimal 17 m e (decimal_exponent vn vd) 1 = (s, p)"
    by (cases "shortest_decimal 17 m e (decimal_exponent vn vd) 1")
  show ?thesis
    using Finite sp format_decimal_nonempty [OF digits_nonempty, of s "p + int (length (digits s))"]
    by (simp add: number_text_def v Let_def)
qed (simp_all add: number_text_def)

lemma stringify_nonempty: "stringify v \<noteq> []"
proof (cases v)
  case (JNum x)
  then show ?thesis using number_text_nonempty [of x] by (cases x) simp_all
qed (simp_all add: quote_string_def)

lemma length_join_comma: "length xs \<le> length (join_comma (map stringify xs)) + 1"
proof (induction xs rule: induct_list012)
  case (2 x)
  then show ?case by simp
next
  case (3 x y zs)
  have "1 \<le> length (stringify x)"
    using stringify_nonempty [of x] by (cases "stringify x") simp_all
  then show ?case using 3 by simp
qed simp

lemma stringify_cursor:
  "stringify (search_after_json sa) =
     CHR ''{'' # quote_string ''values'' @ CHR '':'' # stringify (JArr (values_sa sa)) @
     CHR '','' # quote_string ''sortFields'' @ CHR '':'' # stringify (JArr (map JStr (sortFields sa))) @ ''}''"
  by (simp add: search_after_json_def)

lemma json_image_cursor:
  "json_image (search_after_json sa) =
     JObj [(''values'', JArr (map json_image (values_sa sa))),
           (''sortFields'', JArr (map JStr (sortFields sa)))]"
  by (simp add: search_after_json_def comp_def)

lemma json_parse_cursor:
  assumes "list_all sort_value (values_sa sa)"
  shows "json_parse (stringify (search_after_json sa)) = Some (json_image (search_after_json sa))"
proof -
  let ?vs = "values_sa sa" and ?fs = "map JStr (sortFields sa)"
  let ?t2 = "stringify (JArr ?fs) @ ''}''"
  let ?m2 = "quote_string ''sortFields'' @ CHR '':'' # ?t2"
  let ?t1 = "stringify (JArr ?vs) @ CHR '','' # ?m2"
  let ?m1 = "quote_string ''values'' @ CHR '':'' # ?t1"
  let ?shown = "CHR ''{'' # ?m1"
  define n where "n = 2 * length ?shown - 4"
  have shape: "stringify (search_after_json sa) = ?shown"
    by (simp add: stringify_cursor)
  have fs: "list_all sort_value ?fs" by (simp add: list_all_iff)
  have fs_image: "map json_image ?fs = ?fs" by (simp add: comp_def)
  have len_vs: "length ?vs + 6 \<le> length ?shown"
    using length_join_comma [of ?vs] by (simp add: quote_string_def)
  have len_fs: "length ?fs + 6 \<le> length ?shown"
    using length_join_comma [of ?fs] by (simp add: quote_string_def)
  have fuel: "Suc (2 * length ?shown) = Suc (Suc (Suc (Suc (Suc n))))"
    using len_vs by (simp add: n_def)
  have n_vs: "length ?vs \<le> Suc n" and n_fs: "length ?fs \<le> n"
    using len_vs len_fs by (simp_all add: n_def)
  have a2: "parse_value (Suc (Suc n)) ?t2 = Some (JArr ?fs, ''}'')"
    using parse_value_array [OF fs n_fs, of "''}''"] by (simp only: fs_image)
  have p2: "parse_members (Suc (Suc (Suc n))) ?m2 = Some ([(''sortFields'', JArr ?fs)], [])"
    using parse_members_last [OF a2] .
  have a1: "parse_value (Suc (Suc (Suc n))) ?t1 = Some (JArr (map json_image ?vs), CHR '','' # ?m2)"
    using parse_value_array [OF assms n_vs] .
  have p1: "parse_members (Suc (Suc (Suc (Suc n)))) ?m1 =
      Some ([(''values'', JArr (map json_image ?vs)), (''sortFields'', JArr ?fs)], [])"
    using parse_members_more [OF a1 p2] .
  have "parse_value (Suc (Suc (Suc (Suc (Suc n))))) ?shown =
      Some (JObj [(''values'', JArr (map json_image ?vs)), (''sortFields'', JArr ?fs)], [])"
    using p1 by (simp add: quote_string_def skip_ws_def is_ws_def del: parse_members.simps stringify.simps)
  then show ?thesis
    unfolding json_parse_def shape fuel json_image_cursor
    by (simp add: skip_ws_def del: parse_value.simps stringify.simps)
qed

lemma decode_encode:
  assumes "list_all sort_value (values_sa sa)"
  shows "decodeCursor (encodeCursor sa) = Inr (json_image (search_after_json sa))"
  by (simp add: decodeCursor_def encodeCursor_def base64_roundtrip json_parse_cursor [OF assms])

section \<open>The reader's counter never runs out\<close>

text \<open>
  Every reader consumes at least one character when it succeeds, so the calls nested inside a
  call work on shorter text. Hence a counter of twice the length of the text plus one is
  always enough: any larger counter gives the same result (\<open>counter_enough\<close>), and \<open>json_parse\<close>
  is the reader without a bound.
\<close>

lemma length_skip_ws: "length (skip_ws s) \<le> length s"
  by (simp add: skip_ws_def length_dropWhile_le)

lemma skip_ws_Cons_length: "skip_ws s = c # r \<Longrightarrow> length r < length s"
  using length_skip_ws [of s] by simp

lemma map_option_apfst_Some:
  "map_option (apfst f) p = Some (x, r) \<longleftrightarrow> (\<exists>y. p = Some (y, r) \<and> x = f y)"
  by (cases p) auto

lemma parse_string_body_step:
  assumes "parse_string_body (c # t) = Some (x, r)"
  shows "r = t \<or> (\<exists>u y. parse_string_body u = Some (y, r) \<and> length u \<le> length t)"
proof (cases "c = dquote")
  case True
  then show ?thesis using assms by simp
next
  case False
  show ?thesis
  proof (cases "c = backslash")
    case True
    then obtain e t' where t: "t = e # t'"
      using assms by (cases t) simp_all
    show ?thesis
    proof (cases "e = CHR ''u''")
      case True
      then have "(\<exists>y. parse_string_body (drop 4 t') = Some (y, r)) \<or>
          (\<exists>y. parse_string_body (drop 10 t') = Some (y, r))"
        using assms \<open>c = backslash\<close> t
        by (simp add: map_option_apfst_Some split: option.splits if_splits)
      moreover have "length (drop 4 t') \<le> length t" "length (drop 10 t') \<le> length t"
        using t by simp_all
      ultimately show ?thesis by blast
    next
      case False
      then have "\<exists>y. parse_string_body t' = Some (y, r)"
        using assms \<open>c = backslash\<close> t
        by (simp add: map_option_apfst_Some split: if_splits) blast+
      then obtain y where "parse_string_body t' = Some (y, r)" by blast
      moreover have "length t' \<le> length t" using t by simp
      ultimately show ?thesis by blast
    qed
  next
    case False
    then have "\<exists>y. parse_string_body t = Some (y, r)"
      using assms \<open>c \<noteq> dquote\<close>
      by (simp add: map_option_apfst_Some split: if_splits) blast
    then show ?thesis by auto
  qed
qed

lemma parse_string_body_shorter: "parse_string_body s = Some (x, r) \<Longrightarrow> length r < length s"
proof (induction "length s" arbitrary: s x r rule: less_induct)
  case less
  obtain c t where s: "s = c # t"
    using less.prems by (cases s) simp_all
  from parse_string_body_step [of c t x r] less.prems s
  consider "r = t" | u y where "parse_string_body u = Some (y, r)" "length u \<le> length t"
    by blast
  then show ?case
  proof cases
    case 1
    then show ?thesis using s by simp
  next
    case 2
    then have "length r < length u" using less.hyps [of u y r] s by simp
    then show ?thesis using 2 s by simp
  qed
qed

lemma read_integer_shorter: "read_integer s = Some (ds, r) \<Longrightarrow> length r < length s"
proof (cases s)
  case Nil
  assume "read_integer s = Some (ds, r)"
  then show ?thesis using Nil by (simp add: read_integer_def)
next
  case (Cons c t)
  assume "read_integer s = Some (ds, r)"
  then have "r = t \<or> r = dropWhile is_digit t"
    using Cons by (auto simp add: read_integer_def split: if_splits)
  moreover have "length (dropWhile is_digit t) \<le> length t" by (rule length_dropWhile_le)
  ultimately show ?thesis using Cons by auto
qed

lemma read_fraction_shorter: "read_fraction s = Some (ds, r) \<Longrightarrow> length r \<le> length s"
proof (cases s)
  case Nil
  assume "read_fraction s = Some (ds, r)"
  then show ?thesis using Nil by (simp add: read_fraction_def)
next
  case (Cons c t)
  assume "read_fraction s = Some (ds, r)"
  then have "r = s \<or> r = dropWhile is_digit t"
    using Cons by (auto simp add: read_fraction_def split: if_splits)
  moreover have "length (dropWhile is_digit t) \<le> length t" by (rule length_dropWhile_le)
  ultimately show ?thesis using Cons by auto
qed

lemma read_exponent_shorter: "read_exponent s = Some (ex, r) \<Longrightarrow> length r \<le> length s"
proof (cases s)
  case Nil
  assume "read_exponent s = Some (ex, r)"
  then show ?thesis using Nil by (simp add: read_exponent_def)
next
  case (Cons c t)
  assume "read_exponent s = Some (ex, r)"
  then have "r = s \<or> r = dropWhile is_digit t \<or> r = dropWhile is_digit (tl t)"
    using Cons by (auto simp add: read_exponent_def Let_def split: if_splits)
  moreover have "length (dropWhile is_digit t) \<le> length t" by (rule length_dropWhile_le)
  moreover have "length (dropWhile is_digit (tl t)) \<le> length t"
    using length_dropWhile_le [of is_digit "tl t"] by simp
  ultimately show ?thesis using Cons by auto
qed

lemma parse_number_shorter: "parse_number s = Some (x, r) \<Longrightarrow> length r < length s"
proof -
  assume a: "parse_number s = Some (x, r)"
  define s1 where "s1 = (if (case s of c # _ \<Rightarrow> c = CHR ''-'' | [] \<Rightarrow> False) then tl s else s)"
  have s1: "length s1 \<le> length s" by (simp add: s1_def)
  obtain i r1 where i: "read_integer s1 = Some (i, r1)"
    using a unfolding parse_number_def Let_def s1_def [symmetric]
    by (cases "read_integer s1") auto
  obtain f r2 where f: "read_fraction r1 = Some (f, r2)"
    using a i unfolding parse_number_def Let_def s1_def [symmetric]
    by (cases "read_fraction r1") auto
  obtain ex r3 where e: "read_exponent r2 = Some (ex, r3)"
    using a i f unfolding parse_number_def Let_def s1_def [symmetric]
    by (cases "read_exponent r2") auto
  have "r = r3"
    using a i f e unfolding parse_number_def Let_def s1_def [symmetric] by simp
  then show ?thesis
    using read_integer_shorter [OF i] read_fraction_shorter [OF f] read_exponent_shorter [OF e] s1
    by simp
qed

lemma parse_value_Suc_shorter:
  assumes members: "\<forall>s kvs r. parse_members n s = Some (kvs, r) \<longrightarrow> length r < length s"
    and elements: "\<forall>s vs r. parse_elements n s = Some (vs, r) \<longrightarrow> length r < length s"
    and pv: "parse_value (Suc n) s = Some (v, r)"
  shows "length r < length s"
proof -
  obtain c t where ct: "skip_ws s = c # t"
    using pv by (cases "skip_ws s") simp_all
  have t: "length t < length s" using skip_ws_Cons_length [OF ct] .
  have ct_len: "length (c # t) \<le> length s" using length_skip_ws [of s] ct by simp
  consider (obj) "c = CHR ''{''" | (arr) "c = CHR ''[''" | (str) "c = dquote"
    | (num) "c \<noteq> CHR ''{''" "c \<noteq> CHR ''[''" "c \<noteq> dquote" "c = CHR ''-'' \<or> is_digit c"
    | (lit) "c \<noteq> CHR ''{''" "c \<noteq> CHR ''[''" "c \<noteq> dquote" "\<not> (c = CHR ''-'' \<or> is_digit c)"
    by blast
  then show ?thesis
  proof cases
    case obj
    obtain c' t' where ct': "skip_ws t = c' # t'"
      using pv ct obj by (cases "skip_ws t") simp_all
    show ?thesis
    proof (cases "c' = CHR ''}''")
      case True
      then have "r = t'" using pv ct obj ct' by simp
      then show ?thesis using skip_ws_Cons_length [OF ct'] t by simp
    next
      case False
      then obtain kvs where "parse_members n t = Some (kvs, r)"
        using pv ct obj ct' by (auto simp add: map_option_apfst_Some)
      then show ?thesis using members t by fastforce
    qed
  next
    case arr
    obtain c' t' where ct': "skip_ws t = c' # t'"
      using pv ct arr by (cases "skip_ws t") simp_all
    show ?thesis
    proof (cases "c' = CHR '']''")
      case True
      then have "r = t'" using pv ct arr ct' by simp
      then show ?thesis using skip_ws_Cons_length [OF ct'] t by simp
    next
      case False
      then obtain vs where "parse_elements n t = Some (vs, r)"
        using pv ct arr ct' by (auto simp add: map_option_apfst_Some)
      then show ?thesis using elements t by fastforce
    qed
  next
    case str
    then obtain x where "parse_string_body t = Some (x, r)"
      using pv ct by (auto simp add: map_option_apfst_Some)
    then show ?thesis using parse_string_body_shorter t by fastforce
  next
    case num
    then obtain x where "parse_number (c # t) = Some (x, r)"
      using pv ct by (auto simp add: map_option_apfst_Some)
    then show ?thesis using parse_number_shorter ct_len by fastforce
  next
    case lit
    then have "r = drop 4 (c # t) \<or> r = drop 5 (c # t)"
      using pv ct by (simp split: if_splits)
    then show ?thesis using ct_len by auto
  qed
qed

lemma parse_elements_Suc_shorter:
  assumes vals: "\<forall>s v r. parse_value n s = Some (v, r) \<longrightarrow> length r < length s"
    and elements: "\<forall>s vs r. parse_elements n s = Some (vs, r) \<longrightarrow> length r < length s"
    and pe: "parse_elements (Suc n) s = Some (vs, r)"
  shows "length r < length s"
proof -
  obtain v r1 where v: "parse_value n s = Some (v, r1)"
    using pe by (cases "parse_value n s") auto
  obtain c t where ct: "skip_ws r1 = c # t"
    using pe v by (cases "skip_ws r1") simp_all
  have len: "length t < length s"
    using vals v skip_ws_Cons_length [OF ct] by fastforce
  show ?thesis
  proof (cases "c = CHR '',''")
    case True
    then obtain ws where "parse_elements n t = Some (ws, r)"
      using pe v ct by (auto simp add: map_option_apfst_Some)
    then show ?thesis using elements len by fastforce
  next
    case False
    then have "r = t" using pe v ct by (simp split: if_splits)
    then show ?thesis using len by simp
  qed
qed

lemma parse_members_Suc_shorter:
  assumes vals: "\<forall>s v r. parse_value n s = Some (v, r) \<longrightarrow> length r < length s"
    and members: "\<forall>s kvs r. parse_members n s = Some (kvs, r) \<longrightarrow> length r < length s"
    and pm: "parse_members (Suc n) s = Some (kvs, r)"
  shows "length r < length s"
proof -
  obtain c t where ct: "skip_ws s = c # t"
    using pm by (cases "skip_ws s") simp_all
  have c: "c = dquote" using pm ct by (simp split: if_splits)
  obtain k r1 where k: "parse_string_body t = Some (k, r1)"
    using pm ct c by (cases "parse_string_body t") auto
  obtain c1 r2 where c1: "skip_ws r1 = c1 # r2"
    using pm ct c k by (cases "skip_ws r1") simp_all
  have colon: "c1 = CHR '':''" using pm ct c k c1 by (simp split: if_splits)
  obtain v r3 where v: "parse_value n r2 = Some (v, r3)"
    using pm ct c k c1 colon by (cases "parse_value n r2") auto
  obtain c3 r4 where c3: "skip_ws r3 = c3 # r4"
    using pm ct c k c1 colon v by (cases "skip_ws r3") simp_all
  have "length r3 < length r2" using vals v by blast
  then have len: "length r4 < length s"
    using skip_ws_Cons_length [OF ct] parse_string_body_shorter [OF k] skip_ws_Cons_length [OF c1]
      skip_ws_Cons_length [OF c3] by simp
  show ?thesis
  proof (cases "c3 = CHR '',''")
    case True
    then obtain rest where "parse_members n r4 = Some (rest, r)"
      using pm ct c k c1 colon v c3 by (auto simp add: map_option_apfst_Some)
    then show ?thesis using members len by fastforce
  next
    case False
    then have "r = r4" using pm ct c k c1 colon v c3 by (simp split: if_splits)
    then show ?thesis using len by simp
  qed
qed

lemma parse_shorter:
  "(parse_value n s = Some (v, r) \<longrightarrow> length r < length s) \<and>
   (parse_elements n s = Some (vs, r) \<longrightarrow> length r < length s) \<and>
   (parse_members n s = Some (kvs, r) \<longrightarrow> length r < length s)"
proof (induction n arbitrary: s v vs kvs r)
  case 0
  show ?case by simp
next
  case (Suc n)
  have vals: "\<forall>s v r. parse_value n s = Some (v, r) \<longrightarrow> length r < length s"
    using Suc by blast
  have elements: "\<forall>s vs r. parse_elements n s = Some (vs, r) \<longrightarrow> length r < length s"
    using Suc by blast
  have members: "\<forall>s kvs r. parse_members n s = Some (kvs, r) \<longrightarrow> length r < length s"
    using Suc by blast
  show ?case
    using parse_value_Suc_shorter [OF members elements]
      parse_elements_Suc_shorter [OF vals elements]
      parse_members_Suc_shorter [OF vals members]
    by blast
qed

lemma parse_value_shorter: "parse_value n s = Some (v, r) \<Longrightarrow> length r < length s"
  using parse_shorter [of n s v r] by blast

lemma parse_value_Suc_counter:
  assumes members: "\<forall>s. 2 * length s \<le> n \<longrightarrow> parse_members (Suc n) s = parse_members n s"
    and elements: "\<forall>s. 2 * length s + 2 \<le> n \<longrightarrow> parse_elements (Suc n) s = parse_elements n s"
    and bound: "2 * length s + 1 \<le> Suc n"
  shows "parse_value (Suc (Suc n)) s = parse_value (Suc n) s"
proof (cases "skip_ws s")
  case Nil
  then show ?thesis by simp
next
  case (Cons c t)
  have t: "length t < length s" using skip_ws_Cons_length [OF Cons] .
  have pm: "parse_members (Suc n) t = parse_members n t"
    using members t bound by (intro members [rule_format]) simp
  have pe: "parse_elements (Suc n) t = parse_elements n t"
    using elements t bound by (intro elements [rule_format]) simp
  show ?thesis
    by (simp only: parse_value.simps(2) [of "Suc n" s] parse_value.simps(2) [of n s] Cons list.case pm pe)
qed

lemma parse_elements_Suc_counter:
  assumes vals: "\<forall>s. 2 * length s + 1 \<le> n \<longrightarrow> parse_value (Suc n) s = parse_value n s"
    and elements: "\<forall>s. 2 * length s + 2 \<le> n \<longrightarrow> parse_elements (Suc n) s = parse_elements n s"
    and bound: "2 * length s + 2 \<le> Suc n"
  shows "parse_elements (Suc (Suc n)) s = parse_elements (Suc n) s"
proof -
  have pv: "parse_value (Suc n) s = parse_value n s"
    using bound by (intro vals [rule_format]) simp
  show ?thesis
  proof (cases "parse_value n s")
    case None
    then show ?thesis using pv by simp
  next
    case (Some p)
    obtain v r1 where p: "p = (v, r1)" by (cases p)
    have r1: "length r1 < length s" using parse_value_shorter Some p by blast
    show ?thesis
    proof (cases "skip_ws r1")
      case Nil
      then show ?thesis using pv Some p by simp
    next
      case (Cons c t)
      have "length t < length r1" using skip_ws_Cons_length [OF Cons] .
      then have pe: "parse_elements (Suc n) t = parse_elements n t"
        using r1 bound by (intro elements [rule_format]) simp
      show ?thesis
        by (simp only: parse_elements.simps(2) [of "Suc n" s] parse_elements.simps(2) [of n s]
              pv Some p Cons pe option.case prod.case list.case)
    qed
  qed
qed

lemma parse_members_Suc_counter:
  assumes vals: "\<forall>s. 2 * length s + 1 \<le> n \<longrightarrow> parse_value (Suc n) s = parse_value n s"
    and members: "\<forall>s. 2 * length s \<le> n \<longrightarrow> parse_members (Suc n) s = parse_members n s"
    and bound: "2 * length s \<le> Suc n"
  shows "parse_members (Suc (Suc n)) s = parse_members (Suc n) s"
proof (cases "skip_ws s")
  case Nil
  then show ?thesis by simp
next
  case (Cons c t)
  have t: "length t < length s" using skip_ws_Cons_length [OF Cons] .
  show ?thesis
  proof (cases "parse_string_body t")
    case None
    then show ?thesis using Cons by simp
  next
    case (Some p)
    obtain k r1 where p: "p = (k, r1)" by (cases p)
    have r1: "length r1 < length t" using parse_string_body_shorter Some p by blast
    show ?thesis
    proof (cases "skip_ws r1")
      case Nil
      then show ?thesis using Cons Some p by simp
    next
      case c1: (Cons c1 r2)
      have r2: "length r2 < length r1" using skip_ws_Cons_length [OF c1] .
      have pv: "parse_value (Suc n) r2 = parse_value n r2"
        using t r1 r2 bound by (intro vals [rule_format]) simp
      show ?thesis
      proof (cases "parse_value n r2")
        case None
        then show ?thesis using Cons Some p c1 pv by simp
      next
        case v: (Some q)
        obtain v r3 where q: "q = (v, r3)" by (cases q)
        have r3: "length r3 < length r2" using parse_value_shorter v q by blast
        show ?thesis
        proof (cases "skip_ws r3")
          case Nil
          then show ?thesis using Cons Some p c1 pv v q by simp
        next
          case c3: (Cons c3 r4)
          have "length r4 < length r3" using skip_ws_Cons_length [OF c3] .
          then have pm: "parse_members (Suc n) r4 = parse_members n r4"
            using t r1 r2 r3 bound by (intro members [rule_format]) simp
          show ?thesis
            by (simp only: parse_members.simps(2) [of "Suc n" s] parse_members.simps(2) [of n s]
                  Cons Some p c1 pv v q c3 pm option.case prod.case list.case)
        qed
      qed
    qed
  qed
qed

lemma counter_step:
  "(2 * length s + 1 \<le> n \<longrightarrow> parse_value (Suc n) s = parse_value n s) \<and>
   (2 * length s + 2 \<le> n \<longrightarrow> parse_elements (Suc n) s = parse_elements n s) \<and>
   (2 * length s \<le> n \<longrightarrow> parse_members (Suc n) s = parse_members n s)"
proof (induction n arbitrary: s)
  case 0
  show ?case by (simp add: skip_ws_def)
next
  case (Suc n)
  have vals: "\<forall>s. 2 * length s + 1 \<le> n \<longrightarrow> parse_value (Suc n) s = parse_value n s"
    using Suc by blast
  have elements: "\<forall>s. 2 * length s + 2 \<le> n \<longrightarrow> parse_elements (Suc n) s = parse_elements n s"
    using Suc by blast
  have members: "\<forall>s. 2 * length s \<le> n \<longrightarrow> parse_members (Suc n) s = parse_members n s"
    using Suc by blast
  show ?case
    using parse_value_Suc_counter [OF members elements]
      parse_elements_Suc_counter [OF vals elements]
      parse_members_Suc_counter [OF vals members]
    by blast
qed

lemma counter_enough:
  assumes "Suc (2 * length s) \<le> n"
  shows "parse_value n s = parse_value (Suc (2 * length s)) s"
  using assms
proof (induction n rule: dec_induct)
  case base
  show ?case by simp
next
  case (step m)
  then show ?case using counter_step [of s m] by simp
qed

lemma json_parse_any_counter:
  assumes "Suc (2 * length s) \<le> n"
  shows "json_parse s =
           (case parse_value n s of
              None \<Rightarrow> None
            | Some (v, r) \<Rightarrow> if skip_ws r = [] then Some v else None)"
  by (simp only: json_parse_def counter_enough [OF assms])

section \<open>Properties of the page fetch\<close>

lemma cursorSearch_decode_error:
  assumes "searchAfter_of input = Inl e"
  shows "cursorSearch client project p input = \<lparr>queries = [], console = [], outcome = Inl e\<rparr>"
  using assms
  by (auto simp add: cursorSearch_def searchAfter_of_def Let_def split: option.splits if_splits sum.splits)

lemma cursorSearch_client_error:
  assumes "searchAfter_of input = Inr sa" "client (search_params p input sa) = Inl e"
  shows "cursorSearch client project p input =
           \<lparr>queries = [search_params p input sa], console = [e], outcome = Inl e\<rparr>"
  using assms
  by (auto simp add: cursorSearch_def searchAfter_of_def search_params_def Let_def
        split: option.splits if_splits sum.splits)

lemma cursorSearch_page:
  assumes "searchAfter_of input = Inr sa" "client (search_params p input sa) = Inr response"
  shows "cursorSearch client project p input =
           \<lparr>queries = [search_params p input sa], console = [],
            outcome = Inr
              \<lparr>items = map project
                 (if effective_take (take_in input) < int (length (hits response))
                  then slice0 (hits response) (effective_take (take_in input)) else hits response),
               totalItems = total_items (total response),
               hasMore = (effective_take (take_in input) < int (length (hits response))),
               nextCursor =
                 (if effective_take (take_in input) < int (length (hits response)) \<and>
                     slice0 (hits response) (effective_take (take_in input)) \<noteq> []
                  then Some (encodeCursor
                         \<lparr>values_sa = (case sort_values (last (slice0 (hits response) (effective_take (take_in input)))) of
                                         Some vs \<Rightarrow> vs | None \<Rightarrow> []),
                          sortFields = map fst (buildSort (sort_in input))\<rparr>)
                  else None),
               prevCursor = None\<rparr>\<rparr>"
  using assms
  by (auto simp add: cursorSearch_def searchAfter_of_def search_params_def Let_def
        split: option.splits if_splits sum.splits)

lemma outcome_cases:
  obtains (decode_error) e where "searchAfter_of input = Inl e"
      "cursorSearch client project p input = \<lparr>queries = [], console = [], outcome = Inl e\<rparr>"
  | (client_error) sa e where "searchAfter_of input = Inr sa" "client (search_params p input sa) = Inl e"
  | (page) sa response where "searchAfter_of input = Inr sa" "client (search_params p input sa) = Inr response"
proof (cases "searchAfter_of input")
  case (Inl e)
  then show ?thesis using decode_error cursorSearch_decode_error by blast
next
  case (Inr sa)
  then show ?thesis using client_error page by (cases "client (search_params p input sa)") auto
qed

lemma searchAfter_of_take [simp]: "searchAfter_of (input\<lparr>take_in := t\<rparr>) = searchAfter_of input"
  by (simp add: searchAfter_of_def)

lemma buildQuery_take [simp]: "buildQuery (input\<lparr>take_in := t\<rparr>) = buildQuery input"
  by (simp add: buildQuery_def)

lemma buildQuery_cursor [simp]: "buildQuery (input\<lparr>cursor := c\<rparr>) = buildQuery input"
  by (simp add: buildQuery_def)

lemma same_effective_take:
  assumes "effective_take (take_in input) = effective_take t"
  shows "cursorSearch client project p input = cursorSearch client project p (input\<lparr>take_in := t\<rparr>)"
proof -
  have params: "search_params p (input\<lparr>take_in := t\<rparr>) sa = search_params p input sa" for sa
    using assms by (simp add: search_params_def)
  show ?thesis
  proof (cases rule: outcome_cases [where input = input and client = client and p = p and project = project])
    case (decode_error e)
    then show ?thesis by (simp add: cursorSearch_decode_error)
  next
    case (client_error sa e)
    then show ?thesis
      by (simp add: cursorSearch_client_error [of _ sa _ _ e] params)
  next
    case (page sa response)
    then show ?thesis using assms
      by (simp add: cursorSearch_page [of _ sa _ _ response] params)
  qed
qed

lemma length_slice0: "0 \<le> e \<Longrightarrow> int (length (slice0 xs e)) \<le> e"
  by (simp add: slice0_def)

lemma slice0_nonneg: "0 \<le> e \<Longrightarrow> slice0 xs e = take (nat e) xs"
  by (simp add: slice0_def)

lemma decodeCursor_empty: "decodeCursor [] = Inl \<lparr>error_name = ''Error'', message = ''Invalid cursor format''\<rparr>"
  by (simp add: decodeCursor_def base64_decode_def json_parse_def List.map_filter_simps skip_ws_def)

lemma searchAfter_of_decoded:
  assumes "cursor input = Some c" "decodeCursor c = Inr v"
  shows "searchAfter_of input = Inr (Some v)"
proof -
  have "c \<noteq> []" using assms(2) decodeCursor_empty by auto
  then show ?thesis using assms by (simp add: searchAfter_of_def)
qed

lemma searchAfter_of_absent: "searchAfter_of (input\<lparr>cursor := None\<rparr>) = Inr None"
  by (simp add: searchAfter_of_def)

lemma searchAfter_of_no_cursor [simp]: "cursor input = None \<Longrightarrow> searchAfter_of input = Inr None"
  by (simp add: searchAfter_of_def)

lemma same_resume_marker:
  assumes "searchAfter_of input = Inr sa" "searchAfter_of input' = Inr sa'"
    and "search_params p input sa = search_params p input' sa'"
    and "take_in input = take_in input'" "sort_in input = sort_in input'"
  shows "cursorSearch client project p input = cursorSearch client project p input'"
proof (cases "client (search_params p input sa)")
  case (Inl e)
  then show ?thesis
    using assms cursorSearch_client_error [where client = client and project = project, OF assms(1) Inl]
      cursorSearch_client_error [where client = client and project = project and e = e, OF assms(2)]
    by simp
next
  case (Inr response)
  then show ?thesis
    using assms cursorSearch_page [where client = client and project = project, OF assms(1) Inr]
      cursorSearch_page [where client = client and project = project and response = response, OF assms(2)]
    by simp
qed

lemma queries_when_decoded:
  assumes "searchAfter_of input = Inr sa"
  shows "queries (cursorSearch client project p input) = [search_params p input sa]"
proof (cases "client (search_params p input sa)")
  case (Inl e)
  then show ?thesis using assms by (simp add: cursorSearch_client_error)
next
  case (Inr response)
  then show ?thesis using assms by (simp add: cursorSearch_page)
qed

lemma no_values_member:
  assumes "\<forall>kvs. v = JObj kvs \<longrightarrow> ''values'' \<notin> fst ` set kvs"
  shows "body_value (optional_values (Some v)) = None"
proof (cases v)
  case (JObj kvs)
  then have "map_of (rev kvs) ''values'' = None"
    using assms by (simp add: map_of_eq_None_iff)
  then show ?thesis using JObj by simp
qed simp_all

lemma base64_decode_empty: "base64_decode [] = []"
  by (simp add: base64_decode_def List.map_filter_simps)

lemma encodeCursor_nonempty: "encodeCursor sa \<noteq> []"
proof
  assume "encodeCursor sa = []"
  then have "base64_decode (base64_encode (stringify (search_after_json sa))) = base64_decode []"
    by (simp add: encodeCursor_def)
  then have "stringify (search_after_json sa) = []"
    by (simp add: base64_roundtrip base64_decode_empty)
  then show False using stringify_nonempty by blast
qed

lemma optional_values_cursor:
  "optional_values (Some (search_after_json sa)) = Value (JArr (values_sa sa))"
  by (simp add: search_after_json_def)

lemma optional_values_image:
  "optional_values (Some (json_image (search_after_json sa))) = Value (JArr (map json_image (values_sa sa)))"
  by (simp add: json_image_cursor)

lemma json_exact_image: "sort_value v \<Longrightarrow> json_exact v \<Longrightarrow> json_image v = v"
  by (cases v) (auto simp add: is_double_def split: number.splits)

lemma json_exact_images: "list_all sort_value vs \<Longrightarrow> list_all json_exact vs \<Longrightarrow> map json_image vs = vs"
  by (induction vs) (simp_all add: json_exact_image)

lemma decode_encode_exact:
  assumes "list_all sort_value vs" "list_all json_exact vs"
  shows "decodeCursor (encodeCursor \<lparr>values_sa = vs, sortFields = fs\<rparr>) =
           Inr (JObj [(''values'', JArr vs), (''sortFields'', JArr (map JStr fs))])"
  using decode_encode [of "\<lparr>values_sa = vs, sortFields = fs\<rparr>"] assms
  by (simp add: json_image_cursor json_exact_images)

lemma search_params_cursor:
  "search_params p (input\<lparr>cursor := c\<rparr>) sa = search_params p input sa"
  by (simp add: search_params_def)

section \<open>Runs on the example data\<close>

lemma plain_request_fields [simp]:
  "term_in plain_request = None" "facetValueIds plain_request = None"
  "facetValueOperator plain_request = None" "collectionId plain_request = None"
  "take_in plain_request = None" "cursor plain_request = None" "sort_in plain_request = None"
  by (simp_all add: plain_request_def)

lemma buildQuery_plain [simp]:
  "term_in input = None \<Longrightarrow> facetValueIds input = None \<Longrightarrow> collectionId input = None \<Longrightarrow>
   buildQuery input = BoolQ [(Must, [MatchAll]), (Filter, [])]"
  by (simp add: buildQuery_def)

lemma effective_take_values [simp]:
  "effective_take None = 100" "effective_take (Some 0) = 100" "effective_take (Some 1) = 1"
  "effective_take (Some 2) = 2" "effective_take (Some (- 1)) = - 1"
  "effective_take (Some 1000) = 1000" "effective_take (Some 5000) = 1000"
  by (simp_all add: effective_take_def)

lemma run_take_2:
  "cursorSearch (capped_index three_hits) document ''gbros'' (plain_request\<lparr>take_in := Some 2\<rparr>) =
     \<lparr>queries = [\<lparr>index = ''gbrosvariants*'', query = BoolQ [(Must, [MatchAll]), (Filter, [])],
                  sort_req = [(''productId'', ''asc''), (''productVariantId'', ''asc'')],
                  size_req = 3, search_after = None, track_total_hits = True\<rparr>],
      console = [],
      outcome = Inr \<lparr>items = [''A'', ''B''], totalItems = 3, hasMore = True,
                     nextCursor = Some (encodeCursor
                       \<lparr>values_sa = [JStr ''2'', JStr ''20''],
                        sortFields = [''productId'', ''productVariantId'']\<rparr>),
                     prevCursor = None\<rparr>\<rparr>"
proof -
  let ?input = "plain_request\<lparr>take_in := Some 2\<rparr>"
  have sa: "searchAfter_of ?input = Inr None" by simp
  have resp: "capped_index three_hits (search_params ''gbros'' ?input None) =
      Inr \<lparr>hits = three_hits, total = TotalObject (Some 3)\<rparr>"
    by (simp add: capped_index_def search_params_def three_hits_def)
  show ?thesis
    unfolding cursorSearch_page [where client = "capped_index three_hits" and project = document, OF sa resp]
    by (simp add: search_params_def buildSort_None three_hits_def slice0_def)
qed

lemma run_take_minus_1:
  "cursorSearch (capped_index three_hits) document ''gbros'' (plain_request\<lparr>take_in := Some (- 1)\<rparr>) =
     \<lparr>queries = [\<lparr>index = ''gbrosvariants*'', query = BoolQ [(Must, [MatchAll]), (Filter, [])],
                  sort_req = [(''productId'', ''asc''), (''productVariantId'', ''asc'')],
                  size_req = 0, search_after = None, track_total_hits = True\<rparr>],
      console = [],
      outcome = Inr \<lparr>items = [], totalItems = 3, hasMore = True, nextCursor = None,
                     prevCursor = None\<rparr>\<rparr>"
proof -
  let ?input = "plain_request\<lparr>take_in := Some (- 1)\<rparr>"
  have sa: "searchAfter_of ?input = Inr None" by simp
  have resp: "capped_index three_hits (search_params ''gbros'' ?input None) =
      Inr \<lparr>hits = [], total = TotalObject (Some 3)\<rparr>"
    by (simp add: capped_index_def search_params_def three_hits_def)
  show ?thesis
    unfolding cursorSearch_page [where client = "capped_index three_hits" and project = document, OF sa resp]
    by (simp add: search_params_def buildSort_None slice0_def)
qed

lemma decode_garbage:
  "decodeCursor ''%%%'' = Inl \<lparr>error_name = ''Error'', message = ''Invalid cursor format''\<rparr>"
  by code_simp

lemma run_garbage_cursor:
  "cursorSearch (capped_index three_hits) document ''gbros'' (plain_request\<lparr>cursor := Some ''%%%''\<rparr>) =
     \<lparr>queries = [], console = [],
      outcome = Inl \<lparr>error_name = ''Error'', message = ''Invalid cursor format''\<rparr>\<rparr>"
  by (rule cursorSearch_decode_error) (simp add: searchAfter_of_def decode_garbage)

lemma run_failing_client:
  "cursorSearch (failing_client \<lparr>error_name = ''TimeoutError'', message = ''Request timed out''\<rparr>)
       document ''gbros'' plain_request =
     \<lparr>queries = [\<lparr>index = ''gbrosvariants*'', query = BoolQ [(Must, [MatchAll]), (Filter, [])],
                  sort_req = [(''productId'', ''asc''), (''productVariantId'', ''asc'')],
                  size_req = 101, search_after = None, track_total_hits = True\<rparr>],
      console = [\<lparr>error_name = ''TimeoutError'', message = ''Request timed out''\<rparr>],
      outcome = Inl \<lparr>error_name = ''TimeoutError'', message = ''Request timed out''\<rparr>\<rparr>"
proof -
  have sa: "searchAfter_of plain_request = Inr None" by simp
  have err: "failing_client \<lparr>error_name = ''TimeoutError'', message = ''Request timed out''\<rparr>
      (search_params ''gbros'' plain_request None) =
      Inl \<lparr>error_name = ''TimeoutError'', message = ''Request timed out''\<rparr>"
    by (simp add: failing_client_def)
  show ?thesis
    unfolding cursorSearch_client_error
      [where client = "failing_client \<lparr>error_name = ''TimeoutError'', message = ''Request timed out''\<rparr>"
         and project = document, OF sa err]
    by (simp add: search_params_def buildSort_None)
qed

lemma decode_other_keys: "decodeCursor ''eyJ4IjoxfQ=='' = Inr (JObj [(''x'', JNum (number_value 1 0))])"
  by code_simp

lemma decode_array: "decodeCursor ''WzEsMl0='' = Inr (JArr [JNum (number_value 1 0), JNum (number_value 2 0)])"
  by code_simp

lemma decode_fraction: "decodeCursor ''MS41'' = Inr (JNum (number_value 15 (- 1)))"
  by code_simp

lemma decode_exponent: "decodeCursor ''WzFlM10='' = Inr (JArr [JNum (number_value 1 3)])"
  by code_simp

lemma number_1999: "number_value 1999 0 = Finite False 8791694975696896 (- 42)"
  by code_simp

lemma number_19_99: "number_value 1999 (- 2) = Finite False 5626684784446013 (- 48)"
  by code_simp

lemma number_5: "number_value 5 0 = Finite False 5629499534213120 (- 50)"
  by code_simp

lemma name_sort_token:
  "encodeCursor \<lparr>values_sa = [JStr ''Apple'', JStr ''1'', JStr ''10''],
      sortFields = [''productName.keyword'', ''productId'', ''productVariantId'']\<rparr> =
   ''eyJ2YWx1ZXMiOlsiQXBwbGUiLCIxIiwiMTAiXSwic29ydEZpZWxkcyI6WyJwcm9kdWN0TmFtZS5rZXl3b3JkIiwicHJvZHVjdElkIiwicHJvZHVjdFZhcmlhbnRJZCJdfQ==''"
  by code_simp

lemma price_page_token:
  "encodeCursor \<lparr>values_sa = [JNum (number_value 1999 0), JStr ''1'', JStr ''10''],
      sortFields = [''priceWithTax'', ''productId'', ''productVariantId'']\<rparr> =
   ''eyJ2YWx1ZXMiOlsxOTk5LCIxIiwiMTAiXSwic29ydEZpZWxkcyI6WyJwcmljZVdpdGhUYXgiLCJwcm9kdWN0SWQiLCJwcm9kdWN0VmFyaWFudElkIl19''"
  by code_simp

lemma mixed_values_token:
  "encodeCursor \<lparr>values_sa = [JNum (number_value 1999 (- 2)), JStr ''Shirt'', JBool True, JNull,
        JNum (negate (number_value 5 0))],
      sortFields = [''priceWithTax'', ''productId'']\<rparr> =
   ''eyJ2YWx1ZXMiOlsxOS45OSwiU2hpcnQiLHRydWUsbnVsbCwtNV0sInNvcnRGaWVsZHMiOlsicHJpY2VXaXRoVGF4IiwicHJvZHVjdElkIl19''"
  by code_simp

lemma not_numbers_token:
  "encodeCursor \<lparr>values_sa = [JNum NaN, JNum (Infinity False), JNum (Finite True 0 (- 1074))],
      sortFields = [''priceWithTax'']\<rparr> =
   ''eyJ2YWx1ZXMiOltudWxsLG51bGwsMF0sInNvcnRGaWVsZHMiOlsicHJpY2VXaXRoVGF4Il19''"
  by code_simp

lemma run_price_sort_page_1:
  "cursorSearch (capped_index hits_by_price) document ''gbros''
     (plain_request\<lparr>take_in := Some 1, sort_in := Some \<lparr>name = None, price = Some ASC, createdAt = None\<rparr>\<rparr>) =
     \<lparr>queries = [\<lparr>index = ''gbrosvariants*'', query = BoolQ [(Must, [MatchAll]), (Filter, [])],
                  sort_req = [(''priceWithTax'', ''asc''), (''productId'', ''asc''), (''productVariantId'', ''asc'')],
                  size_req = 2, search_after = None, track_total_hits = True\<rparr>],
      console = [],
      outcome = Inr \<lparr>items = [''A''], totalItems = 3, hasMore = True,
                     nextCursor = Some ''eyJ2YWx1ZXMiOlsxOTk5LCIxIiwiMTAiXSwic29ydEZpZWxkcyI6WyJwcmljZVdpdGhUYXgiLCJwcm9kdWN0SWQiLCJwcm9kdWN0VmFyaWFudElkIl19'',
                     prevCursor = None\<rparr>\<rparr>"
proof -
  let ?input = "plain_request\<lparr>take_in := Some 1, sort_in := Some \<lparr>name = None, price = Some ASC, createdAt = None\<rparr>\<rparr>"
  have sa: "searchAfter_of ?input = Inr None" by simp
  have resp: "capped_index hits_by_price (search_params ''gbros'' ?input None) =
      Inr \<lparr>hits = take 2 hits_by_price, total = TotalObject (Some 3)\<rparr>"
    by (simp add: capped_index_def search_params_def hits_by_price_def)
  show ?thesis
    unfolding cursorSearch_page [where client = "capped_index hits_by_price" and project = document, OF sa resp]
    by (simp add: search_params_def buildSort_Some hits_by_price_def slice0_def price_page_token)
qed

lemma decode_price_page_token:
  "decodeCursor ''eyJ2YWx1ZXMiOlsxOTk5LCIxIiwiMTAiXSwic29ydEZpZWxkcyI6WyJwcmljZVdpdGhUYXgiLCJwcm9kdWN0SWQiLCJwcm9kdWN0VmFyaWFudElkIl19'' =
     Inr (JObj [(''values'', JArr [JNum (number_value 1999 0), JStr ''1'', JStr ''10'']),
                (''sortFields'', JArr [JStr ''priceWithTax'', JStr ''productId'', JStr ''productVariantId''])])"
proof -
  have sv: "list_all sort_value [JNum (number_value 1999 0), JStr ''1'', JStr ''10'']"
    by (simp add: number_1999 is_double_def)
  have ex: "list_all json_exact [JNum (number_value 1999 0), JStr ''1'', JStr ''10'']"
    by (simp add: number_1999)
  show ?thesis
    using decode_encode_exact [OF sv ex, of "[''priceWithTax'', ''productId'', ''productVariantId'']"]
    by (simp only: price_page_token list.map)
qed

lemma run_replay_under_name_sort:
  "cursorSearch (capped_index hits_by_name) document ''gbros''
     (plain_request\<lparr>take_in := Some 1,
        cursor := Some ''eyJ2YWx1ZXMiOlsxOTk5LCIxIiwiMTAiXSwic29ydEZpZWxkcyI6WyJwcmljZVdpdGhUYXgiLCJwcm9kdWN0SWQiLCJwcm9kdWN0VmFyaWFudElkIl19'',
        sort_in := Some \<lparr>name = Some ASC, price = None, createdAt = None\<rparr>\<rparr>) =
     \<lparr>queries = [\<lparr>index = ''gbrosvariants*'', query = BoolQ [(Must, [MatchAll]), (Filter, [])],
                  sort_req = [(''productName.keyword'', ''asc''), (''productId'', ''asc''), (''productVariantId'', ''asc'')],
                  size_req = 2,
                  search_after = Some (JArr [JNum (number_value 1999 0), JStr ''1'', JStr ''10'']),
                  track_total_hits = True\<rparr>],
      console = [],
      outcome = Inr \<lparr>items = [''A''], totalItems = 3, hasMore = True,
                     nextCursor = Some ''eyJ2YWx1ZXMiOlsiQXBwbGUiLCIxIiwiMTAiXSwic29ydEZpZWxkcyI6WyJwcm9kdWN0TmFtZS5rZXl3b3JkIiwicHJvZHVjdElkIiwicHJvZHVjdFZhcmlhbnRJZCJdfQ=='',
                     prevCursor = None\<rparr>\<rparr>"
proof -
  let ?token = "''eyJ2YWx1ZXMiOlsxOTk5LCIxIiwiMTAiXSwic29ydEZpZWxkcyI6WyJwcmljZVdpdGhUYXgiLCJwcm9kdWN0SWQiLCJwcm9kdWN0VmFyaWFudElkIl19''"
  let ?input = "plain_request\<lparr>take_in := Some 1, cursor := Some ?token,
        sort_in := Some \<lparr>name = Some ASC, price = None, createdAt = None\<rparr>\<rparr>"
  let ?v = "JObj [(''values'', JArr [JNum (number_value 1999 0), JStr ''1'', JStr ''10'']),
                (''sortFields'', JArr [JStr ''priceWithTax'', JStr ''productId'', JStr ''productVariantId''])]"
  have sa: "searchAfter_of ?input = Inr (Some ?v)"
    by (rule searchAfter_of_decoded [where c = ?token]) (simp_all add: decode_price_page_token)
  have resp: "capped_index hits_by_name (search_params ''gbros'' ?input (Some ?v)) =
      Inr \<lparr>hits = take 2 hits_by_name, total = TotalObject (Some 3)\<rparr>"
    by (simp add: capped_index_def search_params_def hits_by_name_def)
  show ?thesis
    unfolding cursorSearch_page [where client = "capped_index hits_by_name" and project = document, OF sa resp]
    by (simp add: search_params_def buildSort_Some hits_by_name_def slice0_def name_sort_token)
qed

section \<open>The page fetch and the cursor: the claims\<close>

text \<open>
  C1, for the requests that reach the index with a positive page size. When the cursor is
  absent or decodes and the effective page size \<open>t\<close> is at least 1, the call sends exactly one
  request, asking for \<open>t + 1\<close> documents. When the index answers, \<open>hasMore\<close> says that it
  returned more than \<open>t\<close> documents (exactly \<open>t + 1\<close> of them when it respects the requested
  size), the page holds the first \<open>t\<close> documents returned, so at most \<open>t\<close>, the extra one being
  dropped, and with \<open>hasMore\<close> the next cursor encodes the sort values of the last document
  kept together with the field names of the composed sort.
\<close>

theorem fetch_page_overfetch_and_trim:
  assumes "searchAfter_of input = Inr sa" and "effective_take (take_in input) = t" and "1 \<le> t"
  shows "queries (cursorSearch client project p input) = [search_params p input sa]
     \<and> size_req (search_params p input sa) = t + 1
     \<and> (\<forall>response. client (search_params p input sa) = Inr response \<longrightarrow>
          (\<exists>page. outcome (cursorSearch client project p input) = Inr page
             \<and> (hasMore page \<longleftrightarrow> t < int (length (hits response)))
             \<and> (int (length (hits response)) \<le> t + 1 \<longrightarrow>
                  (hasMore page \<longleftrightarrow> int (length (hits response)) = t + 1))
             \<and> items page = map project (take (nat t) (hits response))
             \<and> int (length (items page)) \<le> t
             \<and> (hasMore page \<longrightarrow>
                  nextCursor page = Some (encodeCursor
                    \<lparr>values_sa = (case sort_values (last (take (nat t) (hits response))) of
                                    Some vs \<Rightarrow> vs | None \<Rightarrow> []),
                     sortFields = map fst (buildSort (sort_in input))\<rparr>))))"
proof -
  have one: "queries (cursorSearch client project p input) = [search_params p input sa]"
  proof (cases "client (search_params p input sa)")
    case (Inl e)
    then show ?thesis using assms(1) by (simp add: cursorSearch_client_error)
  next
    case (Inr response)
    then show ?thesis using assms(1) by (simp add: cursorSearch_page)
  qed
  have size: "size_req (search_params p input sa) = t + 1"
    using assms(2) by (simp add: search_params_def)
  have page: "\<exists>page. outcome (cursorSearch client project p input) = Inr page
             \<and> (hasMore page \<longleftrightarrow> t < int (length (hits response)))
             \<and> (int (length (hits response)) \<le> t + 1 \<longrightarrow>
                  (hasMore page \<longleftrightarrow> int (length (hits response)) = t + 1))
             \<and> items page = map project (take (nat t) (hits response))
             \<and> int (length (items page)) \<le> t
             \<and> (hasMore page \<longrightarrow>
                  nextCursor page = Some (encodeCursor
                    \<lparr>values_sa = (case sort_values (last (take (nat t) (hits response))) of
                                    Some vs \<Rightarrow> vs | None \<Rightarrow> []),
                     sortFields = map fst (buildSort (sort_in input))\<rparr>))"
    if resp: "client (search_params p input sa) = Inr response" for response
  proof -
    have sl: "slice0 (hits response) t = take (nat t) (hits response)"
      using assms(3) by (simp add: slice0_nonneg)
    have nonempty: "take (nat t) (hits response) \<noteq> []" if "t < int (length (hits response))"
      using that assms(3) by (cases "hits response") auto
    have all: "take (nat t) (hits response) = hits response" if "\<not> t < int (length (hits response))"
      using that by simp
    show ?thesis
      using assms(3) nonempty all
      by (simp add: cursorSearch_page [where client = client and project = project, OF assms(1) resp] assms(2) sl)
  qed
  show ?thesis using one size page by blast
qed

theorem fetch_page_overfetch_and_trim_witness:
  "queries (cursorSearch (capped_index three_hits) document ''gbros'' (plain_request\<lparr>take_in := Some 2\<rparr>))
     = [search_params ''gbros'' (plain_request\<lparr>take_in := Some 2\<rparr>) None]
   \<and> size_req (search_params ''gbros'' (plain_request\<lparr>take_in := Some 2\<rparr>) None) = 3
   \<and> outcome (cursorSearch (capped_index three_hits) document ''gbros'' (plain_request\<lparr>take_in := Some 2\<rparr>))
     = Inr \<lparr>items = [''A'', ''B''], totalItems = 3, hasMore = True,
            nextCursor = Some (encodeCursor
              \<lparr>values_sa = [JStr ''2'', JStr ''20''],
               sortFields = [''productId'', ''productVariantId'']\<rparr>),
            prevCursor = None\<rparr>"
  using fetch_page_overfetch_and_trim
    [of "plain_request\<lparr>take_in := Some 2\<rparr>" None 2 "capped_index three_hits" document "''gbros''"]
  by (simp add: run_take_2)

text \<open>
  C1 as stated, for every request, fails on two requests. A request whose cursor is not
  JSON (here \<open>%%%\<close>) is refused before any request is sent, so it sends none. A request for
  page size \<open>-1\<close> asks the index for 0 documents; the index returns none, and the page says
  \<open>hasMore\<close> although nothing was returned beyond the page, holds more than \<open>-1\<close> items and
  has no next cursor.
\<close>

theorem fetch_page_every_request_counterexample:
  "queries (cursorSearch (capped_index three_hits) document ''gbros'' (plain_request\<lparr>cursor := Some ''%%%''\<rparr>)) = []
   \<and> effective_take (take_in (plain_request\<lparr>take_in := Some (- 1)\<rparr>)) = - 1
   \<and> map size_req (queries (cursorSearch (capped_index three_hits) document ''gbros''
         (plain_request\<lparr>take_in := Some (- 1)\<rparr>))) = [0]
   \<and> outcome (cursorSearch (capped_index three_hits) document ''gbros'' (plain_request\<lparr>take_in := Some (- 1)\<rparr>))
     = Inr \<lparr>items = [], totalItems = 3, hasMore = True, nextCursor = None, prevCursor = None\<rparr>"
  by (simp add: run_garbage_cursor run_take_minus_1)

text \<open>
  C2, as the code has it. A token made by \<open>encodeCursor\<close> from scalar sort values is accepted
  whatever sort the request asks for: the field names stored in the token are never compared
  with the composed sort. Decoding succeeds, exactly one request is sent, it carries the
  token's values, as JSON text carries them, as the resume-after marker under the sort
  composed for this request, and the call fails only if the client throws. The one error
  that decoding a token can raise, whatever the token, is the plain \<open>Error\<close> with the message
  \<open>Invalid cursor format\<close>, raised when the decoded text is not JSON.
\<close>

theorem cursor_accepted_under_any_sort:
  assumes "list_all sort_value (values_sa sa)" and "cursor input = Some (encodeCursor sa)"
  shows "searchAfter_of input = Inr (Some (json_image (search_after_json sa)))
     \<and> queries (cursorSearch client project p input) =
           [search_params p input (Some (json_image (search_after_json sa)))]
     \<and> search_after (search_params p input (Some (json_image (search_after_json sa)))) =
           Some (JArr (map json_image (values_sa sa)))
     \<and> sort_req (search_params p input (Some (json_image (search_after_json sa)))) = buildSort (sort_in input)
     \<and> (\<forall>e. outcome (cursorSearch client project p input) = Inl e \<longrightarrow>
           client (search_params p input (Some (json_image (search_after_json sa)))) = Inl e)
     \<and> (\<forall>token e. decodeCursor token = Inl e \<longrightarrow>
           e = \<lparr>error_name = ''Error'', message = ''Invalid cursor format''\<rparr>
           \<and> json_parse (base64_decode token) = None)"
proof -
  let ?sa = "Some (json_image (search_after_json sa))"
  have sa: "searchAfter_of input = Inr ?sa"
    using searchAfter_of_decoded [OF assms(2) decode_encode [OF assms(1)]] .
  have q: "queries (cursorSearch client project p input) = [search_params p input ?sa]"
    using queries_when_decoded [OF sa] .
  have err: "client (search_params p input ?sa) = Inl e"
    if "outcome (cursorSearch client project p input) = Inl e" for e
  proof (cases "client (search_params p input ?sa)")
    case (Inl e')
    then show ?thesis
      using that cursorSearch_client_error [where client = client and project = project, OF sa Inl] by simp
  next
    case (Inr response)
    then show ?thesis
      using that cursorSearch_page [where client = client and project = project, OF sa Inr] by simp
  qed
  have marker: "search_after (search_params p input ?sa) = Some (JArr (map json_image (values_sa sa)))"
    by (simp only: search_params_def search_request.simps optional_values_image body_value.simps)
  have sorted: "sort_req (search_params p input ?sa) = buildSort (sort_in input)"
    by (simp only: search_params_def search_request.simps)
  have only: "e = \<lparr>error_name = ''Error'', message = ''Invalid cursor format''\<rparr>
      \<and> json_parse (base64_decode token) = None"
    if "decodeCursor token = Inl e" for token e
    using that by (auto simp add: decodeCursor_def split: option.splits)
  show ?thesis using sa q err marker sorted only by blast
qed

theorem cursor_accepted_under_any_sort_witness:
  "searchAfter_of (plain_request\<lparr>cursor := Some (encodeCursor
        \<lparr>values_sa = [JNum (number_value 1999 0), JStr ''1'', JStr ''10''],
         sortFields = [''priceWithTax'', ''productId'', ''productVariantId'']\<rparr>),
      sort_in := Some \<lparr>name = Some ASC, price = None, createdAt = None\<rparr>\<rparr>)
     = Inr (Some (JObj [(''values'', JArr [JNum (number_value 1999 0), JStr ''1'', JStr ''10'']),
                        (''sortFields'', JArr [JStr ''priceWithTax'', JStr ''productId'', JStr ''productVariantId''])]))
   \<and> map sort_req (queries (cursorSearch (capped_index hits_by_name) document ''gbros''
      (plain_request\<lparr>cursor := Some (encodeCursor
        \<lparr>values_sa = [JNum (number_value 1999 0), JStr ''1'', JStr ''10''],
         sortFields = [''priceWithTax'', ''productId'', ''productVariantId'']\<rparr>),
      sort_in := Some \<lparr>name = Some ASC, price = None, createdAt = None\<rparr>\<rparr>)))
     = [[(''productName.keyword'', ''asc''), (''productId'', ''asc''), (''productVariantId'', ''asc'')]]
   \<and> map search_after (queries (cursorSearch (capped_index hits_by_name) document ''gbros''
      (plain_request\<lparr>cursor := Some (encodeCursor
        \<lparr>values_sa = [JNum (number_value 1999 0), JStr ''1'', JStr ''10''],
         sortFields = [''priceWithTax'', ''productId'', ''productVariantId'']\<rparr>),
      sort_in := Some \<lparr>name = Some ASC, price = None, createdAt = None\<rparr>\<rparr>)))
     = [Some (JArr [JNum (number_value 1999 0), JStr ''1'', JStr ''10''])]"
proof -
  let ?vs = "[JNum (number_value 1999 0), JStr ''1'', JStr ''10'']"
  let ?sa = "\<lparr>values_sa = ?vs, sortFields = [''priceWithTax'', ''productId'', ''productVariantId'']\<rparr>"
  let ?input = "plain_request\<lparr>cursor := Some (encodeCursor ?sa),
      sort_in := Some \<lparr>name = Some ASC, price = None, createdAt = None\<rparr>\<rparr>"
  have sv: "list_all sort_value (values_sa ?sa)"
    by (simp add: number_1999 is_double_def)
  have image: "map json_image ?vs = ?vs"
    by (simp add: number_1999)
  have whole: "json_image (search_after_json ?sa) =
      JObj [(''values'', JArr ?vs),
            (''sortFields'', JArr [JStr ''priceWithTax'', JStr ''productId'', JStr ''productVariantId''])]"
    unfolding json_image_cursor using image by simp
  have c: "cursor ?input = Some (encodeCursor ?sa)" by simp
  show ?thesis
    using cursor_accepted_under_any_sort
      [where sa = ?sa and input = ?input and client = "capped_index hits_by_name"
         and project = document and p = "''gbros''", OF sv c]
    unfolding whole using image by (simp add: buildSort_Some)
qed

text \<open>
  C2 as stated fails: the cursor returned with the first page of a search sorted by price is
  accepted by a search sorted by name. The request goes to the index with the name sort and
  the price cursor's values as resume-after marker, nothing is thrown or logged, and the
  page the index answers with is returned.
\<close>

theorem incompatible_cursor_counterexample:
  "outcome (cursorSearch (capped_index hits_by_price) document ''gbros''
     (plain_request\<lparr>take_in := Some 1, sort_in := Some \<lparr>name = None, price = Some ASC, createdAt = None\<rparr>\<rparr>))
     = Inr \<lparr>items = [''A''], totalItems = 3, hasMore = True,
            nextCursor = Some ''eyJ2YWx1ZXMiOlsxOTk5LCIxIiwiMTAiXSwic29ydEZpZWxkcyI6WyJwcmljZVdpdGhUYXgiLCJwcm9kdWN0SWQiLCJwcm9kdWN0VmFyaWFudElkIl19'',
            prevCursor = None\<rparr>
   \<and> cursorSearch (capped_index hits_by_name) document ''gbros''
     (plain_request\<lparr>take_in := Some 1,
        cursor := Some ''eyJ2YWx1ZXMiOlsxOTk5LCIxIiwiMTAiXSwic29ydEZpZWxkcyI6WyJwcmljZVdpdGhUYXgiLCJwcm9kdWN0SWQiLCJwcm9kdWN0VmFyaWFudElkIl19'',
        sort_in := Some \<lparr>name = Some ASC, price = None, createdAt = None\<rparr>\<rparr>) =
     \<lparr>queries = [\<lparr>index = ''gbrosvariants*'', query = BoolQ [(Must, [MatchAll]), (Filter, [])],
                  sort_req = [(''productName.keyword'', ''asc''), (''productId'', ''asc''), (''productVariantId'', ''asc'')],
                  size_req = 2,
                  search_after = Some (JArr [JNum (number_value 1999 0), JStr ''1'', JStr ''10'']),
                  track_total_hits = True\<rparr>],
      console = [],
      outcome = Inr \<lparr>items = [''A''], totalItems = 3, hasMore = True,
                     nextCursor = Some ''eyJ2YWx1ZXMiOlsiQXBwbGUiLCIxIiwiMTAiXSwic29ydEZpZWxkcyI6WyJwcm9kdWN0TmFtZS5rZXl3b3JkIiwicHJvZHVjdElkIiwicHJvZHVjdFZhcmlhbnRJZCJdfQ=='',
                     prevCursor = None\<rparr>\<rparr>"
  by (simp only: run_price_sort_page_1 run_replay_under_name_sort run.simps simp_thms)

text \<open>
  C3, as the code has it. On every page returned, a next cursor is present exactly when
  \<open>hasMore\<close> is true and the page is not empty; so an empty page and a final page never
  carry one. When the effective page size is at least 1, it is present exactly when
  \<open>hasMore\<close> is true.
\<close>

theorem next_cursor_iff_more_and_nonempty:
  assumes "outcome (cursorSearch client project p input) = Inr page"
  shows "(nextCursor page \<noteq> None \<longleftrightarrow> hasMore page \<and> items page \<noteq> [])
       \<and> (1 \<le> effective_take (take_in input) \<longrightarrow> (nextCursor page \<noteq> None \<longleftrightarrow> hasMore page))"
proof (cases rule: outcome_cases [where input = input and client = client and p = p and project = project])
  case (decode_error e)
  then show ?thesis using assms by simp
next
  case (client_error sa e)
  then show ?thesis using assms by (simp add: cursorSearch_client_error [of _ sa _ _ e])
next
  case (page sa response)
  let ?t = "effective_take (take_in input)"
  let ?more = "?t < int (length (hits response))"
  have run: "outcome (cursorSearch client project p input) = Inr page"
    using assms .
  have h: "hasMore page = ?more"
    and i: "items page = map project (if ?more then slice0 (hits response) ?t else hits response)"
    and n: "nextCursor page \<noteq> None \<longleftrightarrow> ?more \<and> slice0 (hits response) ?t \<noteq> []"
    using run unfolding cursorSearch_page [where client = client and project = project, OF page]
    by (auto split: if_splits)
  have nonempty: "slice0 (hits response) ?t \<noteq> []" if "1 \<le> ?t" "?more"
    using that by (cases "hits response") (auto simp add: slice0_nonneg)
  show ?thesis
  proof (cases ?more)
    case True
    then show ?thesis using h i n nonempty by auto
  next
    case False
    then show ?thesis using h i n by simp
  qed
qed

theorem next_cursor_iff_more_and_nonempty_witness:
  "(nextCursor \<lparr>items = [''A'', ''B''], totalItems = 3, hasMore = True,
       nextCursor = Some (encodeCursor
         \<lparr>values_sa = [JStr ''2'', JStr ''20''],
          sortFields = [''productId'', ''productVariantId'']\<rparr>),
       prevCursor = None\<rparr> \<noteq> None)
   = (hasMore \<lparr>items = [''A'', ''B''], totalItems = 3, hasMore = True,
       nextCursor = Some (encodeCursor
         \<lparr>values_sa = [JStr ''2'', JStr ''20''],
          sortFields = [''productId'', ''productVariantId'']\<rparr>),
       prevCursor = None\<rparr>)
   \<and> outcome (cursorSearch (capped_index three_hits) document ''gbros'' (plain_request\<lparr>take_in := Some 2\<rparr>))
     = Inr \<lparr>items = [''A'', ''B''], totalItems = 3, hasMore = True,
            nextCursor = Some (encodeCursor
              \<lparr>values_sa = [JStr ''2'', JStr ''20''],
               sortFields = [''productId'', ''productVariantId'']\<rparr>),
            prevCursor = None\<rparr>"
  using next_cursor_iff_more_and_nonempty
    [of "capped_index three_hits" document "''gbros''" "plain_request\<lparr>take_in := Some 2\<rparr>"
      "\<lparr>items = [''A'', ''B''], totalItems = 3, hasMore = True,
        nextCursor = Some (encodeCursor
          \<lparr>values_sa = [JStr ''2'', JStr ''20''],
           sortFields = [''productId'', ''productVariantId'']\<rparr>),
        prevCursor = None\<rparr>"]
  by (simp add: run_take_2)

text \<open>
  C3 as stated fails for the page size \<open>-1\<close>: the index is asked for 0 documents, the page
  is empty, \<open>hasMore\<close> is true and there is no next cursor.
\<close>

theorem next_cursor_iff_more_counterexample:
  "outcome (cursorSearch (capped_index three_hits) document ''gbros'' (plain_request\<lparr>take_in := Some (- 1)\<rparr>))
     = Inr \<lparr>items = [], totalItems = 3, hasMore = True, nextCursor = None, prevCursor = None\<rparr>
   \<and> hasMore \<lparr>items = [] :: string list, totalItems = 3, hasMore = True, nextCursor = None, prevCursor = None\<rparr>
   \<and> nextCursor \<lparr>items = [] :: string list, totalItems = 3, hasMore = True, nextCursor = None, prevCursor = None\<rparr> = None"
  by (simp add: run_take_minus_1)

text \<open>
  C5, as the code has it. The cursor is JSON text, so a tuple of scalar sort values comes
  back as JSON carries it. With any list of sort field names, encoding the values and decoding
  the token gives the object \<^verbatim>\<open>{ values, sortFields }\<close> with the same field names and with each
  value as it is after \<^verbatim>\<open>JSON.stringify\<close> and \<^verbatim>\<open>JSON.parse\<close>. That is exactly the value itself
  for \<open>null\<close>, the booleans, the strings and every finite number other than the negative
  zero; NaN and the infinities come back as \<open>null\<close> and the negative zero as \<open>0\<close>.
\<close>

theorem cursor_roundtrip:
  assumes "list_all sort_value vs"
  shows "decodeCursor (encodeCursor \<lparr>values_sa = vs, sortFields = fs\<rparr>) =
           Inr (JObj [(''values'', JArr (map json_image vs)), (''sortFields'', JArr (map JStr fs))])
       \<and> (list_all json_exact vs \<longrightarrow>
            decodeCursor (encodeCursor \<lparr>values_sa = vs, sortFields = fs\<rparr>) =
              Inr (JObj [(''values'', JArr vs), (''sortFields'', JArr (map JStr fs))]))
       \<and> (\<forall>v \<in> set vs. json_image v = v \<longleftrightarrow> json_exact v)"
proof -
  have image: "decodeCursor (encodeCursor \<lparr>values_sa = vs, sortFields = fs\<rparr>) =
      Inr (JObj [(''values'', JArr (map json_image vs)), (''sortFields'', JArr (map JStr fs))])"
    using decode_encode [of "\<lparr>values_sa = vs, sortFields = fs\<rparr>"] assms
    by (simp add: json_image_cursor)
  have exact: "json_image v = v \<longleftrightarrow> json_exact v" if "v \<in> set vs" for v
  proof -
    have "sort_value v" using assms that by (simp add: list_all_iff)
    then show ?thesis
      by (cases v) (auto simp add: is_double_def split: number.splits)
  qed
  show ?thesis
    using image exact assms by (simp add: json_exact_images)
qed

theorem cursor_roundtrip_witness:
  "decodeCursor ''eyJ2YWx1ZXMiOlsxOS45OSwiU2hpcnQiLHRydWUsbnVsbCwtNV0sInNvcnRGaWVsZHMiOlsicHJpY2VXaXRoVGF4IiwicHJvZHVjdElkIl19'' =
     Inr (JObj [(''values'', JArr [JNum (number_value 1999 (- 2)), JStr ''Shirt'', JBool True, JNull,
                                   JNum (negate (number_value 5 0))]),
                (''sortFields'', JArr [JStr ''priceWithTax'', JStr ''productId''])])"
proof -
  let ?vs = "[JNum (number_value 1999 (- 2)), JStr ''Shirt'', JBool True, JNull, JNum (negate (number_value 5 0))]"
  have sv: "list_all sort_value ?vs"
    by (simp add: number_19_99 number_5 is_double_def)
  have ex: "list_all json_exact ?vs"
    by (simp add: number_19_99 number_5)
  from cursor_roundtrip [OF sv, of "[''priceWithTax'', ''productId'']"] ex
  have "decodeCursor (encodeCursor \<lparr>values_sa = ?vs, sortFields = [''priceWithTax'', ''productId'']\<rparr>) =
      Inr (JObj [(''values'', JArr ?vs), (''sortFields'', JArr (map JStr [''priceWithTax'', ''productId'']))])"
    by blast
  then show ?thesis
    by (simp only: mixed_values_token list.map)
qed

text \<open>
  C5 as stated, for every number, fails: NaN and an infinity are numbers, and the token made
  from them holds \<open>null\<close> in their place; the negative zero comes back as the positive zero.
\<close>

theorem cursor_roundtrip_counterexample:
  "decodeCursor (encodeCursor
       \<lparr>values_sa = [JNum NaN, JNum (Infinity False), JNum (Finite True 0 (- 1074))],
        sortFields = [''priceWithTax'']\<rparr>) =
     Inr (JObj [(''values'', JArr [JNull, JNull, JNum (Finite False 0 (- 1074))]),
                (''sortFields'', JArr [JStr ''priceWithTax''])])
   \<and> [JNull, JNull, JNum (Finite False 0 (- 1074))] \<noteq>
       [JNum NaN, JNum (Infinity False), JNum (Finite True 0 (- 1074))]
   \<and> list_all sort_value [JNum NaN, JNum (Infinity False), JNum (Finite True 0 (- 1074))]"
  using decode_encode [of "\<lparr>values_sa = [JNum NaN, JNum (Infinity False), JNum (Finite True 0 (- 1074))],
        sortFields = [''priceWithTax'']\<rparr>"]
  by (simp add: json_image_cursor is_double_def)

text \<open>
  C6. A requested page size above the maximum of 1000 is clamped to 1000 without any error:
  the call does exactly what the call with page size 1000 does (same requests, same log, same
  outcome), a returned page holds at most 1000 items, and the call ends in an error only when
  the cursor does not decode or the client throws.
\<close>

theorem take_above_maximum_is_clamped:
  assumes "take_in input = Some n" "1000 < n"
  shows "effective_take (take_in input) = 1000
    \<and> cursorSearch client project p input = cursorSearch client project p (input\<lparr>take_in := Some 1000\<rparr>)
    \<and> (\<forall>page. outcome (cursorSearch client project p input) = Inr page \<longrightarrow> length (items page) \<le> 1000)
    \<and> (\<forall>e. outcome (cursorSearch client project p input) = Inl e \<longrightarrow>
           searchAfter_of input = Inl e \<or>
           (\<exists>sa. searchAfter_of input = Inr sa \<and> client (search_params p input sa) = Inl e))"
proof -
  have t: "effective_take (take_in input) = 1000"
    using assms by (simp add: effective_take_def)
  have same: "cursorSearch client project p input = cursorSearch client project p (input\<lparr>take_in := Some 1000\<rparr>)"
    using t by (intro same_effective_take) (simp add: effective_take_def)
  have bound: "length (items page) \<le> 1000" if "outcome (cursorSearch client project p input) = Inr page" for page
  proof (cases rule: outcome_cases [where input = input and client = client and p = p and project = project])
    case (decode_error e)
    then show ?thesis using that by simp
  next
    case (client_error sa e)
    then show ?thesis using that by (simp add: cursorSearch_client_error [of _ sa _ _ e])
  next
    case (page sa response)
    have "int (length (slice0 (hits response) 1000)) \<le> 1000"
      by (rule length_slice0) simp
    then show ?thesis using that page
      by (auto simp add: cursorSearch_page [of _ sa _ _ response] t split: if_splits)
  qed
  have errors: "searchAfter_of input = Inl e \<or>
      (\<exists>sa. searchAfter_of input = Inr sa \<and> client (search_params p input sa) = Inl e)"
    if "outcome (cursorSearch client project p input) = Inl e" for e
  proof (cases rule: outcome_cases [where input = input and client = client and p = p and project = project])
    case (decode_error e')
    then show ?thesis using that by simp
  next
    case (client_error sa e')
    then show ?thesis using that by (simp add: cursorSearch_client_error [of _ sa _ _ e'])
  next
    case (page sa response)
    then show ?thesis using that by (simp add: cursorSearch_page [of _ sa _ _ response])
  qed
  show ?thesis using t same bound errors by blast
qed

theorem take_above_maximum_is_clamped_witness:
  "effective_take (take_in (plain_request\<lparr>take_in := Some 5000\<rparr>)) = 1000
   \<and> cursorSearch (capped_index three_hits) document ''gbros'' (plain_request\<lparr>take_in := Some 5000\<rparr>)
     = cursorSearch (capped_index three_hits) document ''gbros'' (plain_request\<lparr>take_in := Some 1000\<rparr>)"
  using take_above_maximum_is_clamped
    [of "plain_request\<lparr>take_in := Some 5000\<rparr>" 5000 "capped_index three_hits" document "''gbros''"]
  by simp

text \<open>
  C8, as the code has it. When the client throws, the call has sent exactly one request (it
  does not retry), writes the error to the console once and throws the very same error: its
  name and its message are the client's, it is neither wrapped nor replaced by an error type
  of the service.
\<close>

theorem engine_error_rethrown_unchanged:
  assumes "searchAfter_of input = Inr sa" and "client (search_params p input sa) = Inl e"
  shows "cursorSearch client project p input =
           \<lparr>queries = [search_params p input sa], console = [e], outcome = Inl e\<rparr>"
  using assms by (rule cursorSearch_client_error)

theorem engine_error_rethrown_unchanged_witness:
  "cursorSearch (failing_client \<lparr>error_name = ''TimeoutError'', message = ''Request timed out''\<rparr>)
       document ''gbros'' plain_request =
     \<lparr>queries = [search_params ''gbros'' plain_request None],
      console = [\<lparr>error_name = ''TimeoutError'', message = ''Request timed out''\<rparr>],
      outcome = Inl \<lparr>error_name = ''TimeoutError'', message = ''Request timed out''\<rparr>\<rparr>"
  using engine_error_rethrown_unchanged
    [of plain_request None "failing_client \<lparr>error_name = ''TimeoutError'', message = ''Request timed out''\<rparr>"
      "''gbros''" "\<lparr>error_name = ''TimeoutError'', message = ''Request timed out''\<rparr>" document]
  by (simp add: failing_client_def)

text \<open>
  C8 as stated fails: when the client throws an error named \<open>TimeoutError\<close>, the call throws
  that error, not one named \<open>SearchUnavailable\<close>.
\<close>

theorem engine_error_not_typed_counterexample:
  "outcome (cursorSearch (failing_client \<lparr>error_name = ''TimeoutError'', message = ''Request timed out''\<rparr>)
       document ''gbros'' plain_request)
     = Inl \<lparr>error_name = ''TimeoutError'', message = ''Request timed out''\<rparr>
   \<and> error_name \<lparr>error_name = ''TimeoutError'', message = ''Request timed out''\<rparr> \<noteq> ''SearchUnavailable''"
  by (simp add: run_failing_client)

text \<open>
  C9. When the page size is absent or 0, the effective page size is the default of 100: the
  call does exactly what the call with page size 100 does. When the cursor is absent or
  decodes, it sends one request, which asks the index for 101 documents, and when the index
  answers, the page holds the first 100 documents returned. So the page is empty only if the
  index returned nothing: asking for size 0 never yields an intentionally empty page.
\<close>

theorem absent_or_zero_take_is_default:
  assumes "take_in input = None \<or> take_in input = Some 0"
  shows "effective_take (take_in input) = 100
    \<and> cursorSearch client project p input = cursorSearch client project p (input\<lparr>take_in := Some 100\<rparr>)
    \<and> (\<forall>sa. searchAfter_of input = Inr sa \<longrightarrow>
          queries (cursorSearch client project p input) = [search_params p input sa]
          \<and> size_req (search_params p input sa) = 101
          \<and> (\<forall>response. client (search_params p input sa) = Inr response \<longrightarrow>
                (\<exists>page. outcome (cursorSearch client project p input) = Inr page
                   \<and> items page = map project (take 100 (hits response))
                   \<and> (hits response \<noteq> [] \<longrightarrow> items page \<noteq> []))))"
proof -
  have t: "effective_take (take_in input) = 100"
    using assms by (auto simp add: effective_take_def)
  have same: "cursorSearch client project p input = cursorSearch client project p (input\<lparr>take_in := Some 100\<rparr>)"
    using t by (intro same_effective_take) (simp add: effective_take_def)
  have request: "queries (cursorSearch client project p input) = [search_params p input sa]
      \<and> size_req (search_params p input sa) = 101"
    if "searchAfter_of input = Inr sa" for sa
    using queries_when_decoded [OF that] t by (simp add: search_params_def)
  have page: "\<exists>page. outcome (cursorSearch client project p input) = Inr page
      \<and> items page = map project (take 100 (hits response))
      \<and> (hits response \<noteq> [] \<longrightarrow> items page \<noteq> [])"
    if sa: "searchAfter_of input = Inr sa" and resp: "client (search_params p input sa) = Inr response"
    for sa response
  proof -
    have "take 100 (hits response) = hits response" if "\<not> 100 < int (length (hits response))"
      using that by simp
    then show ?thesis
      by (simp add: cursorSearch_page [where client = client and project = project, OF sa resp] t
            slice0_nonneg)
  qed
  show ?thesis using t same request page by blast
qed

theorem absent_or_zero_take_is_default_witness:
  "effective_take (take_in (plain_request\<lparr>take_in := Some 0\<rparr>)) = 100
   \<and> cursorSearch (capped_index three_hits) document ''gbros'' (plain_request\<lparr>take_in := Some 0\<rparr>)
     = cursorSearch (capped_index three_hits) document ''gbros'' (plain_request\<lparr>take_in := Some 100\<rparr>)
   \<and> map size_req (queries (cursorSearch (capped_index three_hits) document ''gbros''
         (plain_request\<lparr>take_in := Some 0\<rparr>))) = [101]
   \<and> (\<exists>page. outcome (cursorSearch (capped_index three_hits) document ''gbros''
                  (plain_request\<lparr>take_in := Some 0\<rparr>)) = Inr page
          \<and> items page = [''A'', ''B'', ''C''])"
proof -
  let ?input = "plain_request\<lparr>take_in := Some 0\<rparr>"
  have sa: "searchAfter_of ?input = Inr None" by simp
  have resp: "capped_index three_hits (search_params ''gbros'' ?input None) =
      Inr \<lparr>hits = three_hits, total = TotalObject (Some 3)\<rparr>"
    by (simp add: capped_index_def search_params_def three_hits_def)
  have all: "map document (take 100 three_hits) = [''A'', ''B'', ''C'']"
    by (simp add: three_hits_def)
  show ?thesis
    using absent_or_zero_take_is_default
      [of ?input "capped_index three_hits" document "''gbros''"] sa resp all
    by (auto simp add: search_params_def)
qed

text \<open>
  C10. A cursor token that decodes to a JSON value other than an object with a member
  \<open>values\<close> (a number, with or without fraction and exponent, a string, a boolean, \<open>null\<close>,
  an array, an object with other keys) raises no error of its own: the call does exactly what
  the same request without a cursor does, and the one request it sends carries no
  resume-after marker.
\<close>

theorem json_without_values_is_first_page:
  assumes "cursor input = Some c" and "decodeCursor c = Inr v"
    and "\<forall>kvs. v = JObj kvs \<longrightarrow> ''values'' \<notin> fst ` set kvs"
  shows "cursorSearch client project p input = cursorSearch client project p (input\<lparr>cursor := None\<rparr>)
       \<and> queries (cursorSearch client project p input) = [search_params p (input\<lparr>cursor := None\<rparr>) None]
       \<and> search_after (search_params p (input\<lparr>cursor := None\<rparr>) None) = None"
proof -
  have sa: "searchAfter_of input = Inr (Some v)"
    using searchAfter_of_decoded [OF assms(1,2)] .
  have params: "search_params p input (Some v) = search_params p (input\<lparr>cursor := None\<rparr>) None"
    using no_values_member [OF assms(3)] by (simp add: search_params_def)
  have same: "cursorSearch client project p input = cursorSearch client project p (input\<lparr>cursor := None\<rparr>)"
    using same_resume_marker [OF sa searchAfter_of_absent params] by simp
  have q: "queries (cursorSearch client project p input) = [search_params p (input\<lparr>cursor := None\<rparr>) None]"
    by (simp only: queries_when_decoded [OF sa] params)
  have none: "search_after (search_params p (input\<lparr>cursor := None\<rparr>) None) = None"
    by (simp add: search_params_def)
  show ?thesis using same q none by blast
qed

theorem json_without_values_is_first_page_witness:
  "cursorSearch (capped_index three_hits) document ''gbros'' (plain_request\<lparr>cursor := Some ''eyJ4IjoxfQ==''\<rparr>)
     = cursorSearch (capped_index three_hits) document ''gbros'' (plain_request\<lparr>cursor := None\<rparr>)
   \<and> queries (cursorSearch (capped_index three_hits) document ''gbros''
        (plain_request\<lparr>cursor := Some ''eyJ4IjoxfQ==''\<rparr>))
     = [search_params ''gbros'' (plain_request\<lparr>cursor := None\<rparr>) None]
   \<and> cursorSearch (capped_index three_hits) document ''gbros'' (plain_request\<lparr>cursor := Some ''WzEsMl0=''\<rparr>)
     = cursorSearch (capped_index three_hits) document ''gbros'' (plain_request\<lparr>cursor := None\<rparr>)
   \<and> cursorSearch (capped_index three_hits) document ''gbros'' (plain_request\<lparr>cursor := Some ''MS41''\<rparr>)
     = cursorSearch (capped_index three_hits) document ''gbros'' (plain_request\<lparr>cursor := None\<rparr>)
   \<and> cursorSearch (capped_index three_hits) document ''gbros'' (plain_request\<lparr>cursor := Some ''WzFlM10=''\<rparr>)
     = cursorSearch (capped_index three_hits) document ''gbros'' (plain_request\<lparr>cursor := None\<rparr>)"
  using json_without_values_is_first_page
    [of "plain_request\<lparr>cursor := Some ''eyJ4IjoxfQ==''\<rparr>" "''eyJ4IjoxfQ==''" "JObj [(''x'', JNum (number_value 1 0))]"
      "capped_index three_hits" document "''gbros''"]
    json_without_values_is_first_page
    [of "plain_request\<lparr>cursor := Some ''WzEsMl0=''\<rparr>" "''WzEsMl0=''" "JArr [JNum (number_value 1 0), JNum (number_value 2 0)]"
      "capped_index three_hits" document "''gbros''"]
    json_without_values_is_first_page
    [of "plain_request\<lparr>cursor := Some ''MS41''\<rparr>" "''MS41''" "JNum (number_value 15 (- 1))"
      "capped_index three_hits" document "''gbros''"]
    json_without_values_is_first_page
    [of "plain_request\<lparr>cursor := Some ''WzFlM10=''\<rparr>" "''WzFlM10=''" "JArr [JNum (number_value 1 3)]"
      "capped_index three_hits" document "''gbros''"]
  by (auto simp add: decode_other_keys decode_array decode_fraction decode_exponent)

section \<open>Further properties of the page fetch\<close>

text \<open>
  Resumption. When a page of a request with effective page size at least 1 has more results
  and the last item kept carries scalar sort values, the page has a next cursor, and the same
  request with that cursor sends the same search with these sort values, as JSON text
  carries them, as resume-after marker.
\<close>

theorem next_cursor_resumes_after_last_item:
  assumes "searchAfter_of input = Inr sa" and "client (search_params p input sa) = Inr response"
    and "effective_take (take_in input) = t" and "1 \<le> t" and "t < int (length (hits response))"
    and "sort_values (last (take (nat t) (hits response))) = Some vs" and "list_all sort_value vs"
  shows "\<exists>page c. outcome (cursorSearch client project p input) = Inr page
           \<and> nextCursor page = Some c
           \<and> queries (cursorSearch client' project' p (input\<lparr>cursor := Some c\<rparr>))
               = [(search_params p input sa)\<lparr>search_after := Some (JArr (map json_image vs))\<rparr>]"
proof -
  let ?sa = "\<lparr>values_sa = vs, sortFields = map fst (buildSort (sort_in input))\<rparr>"
  let ?c = "encodeCursor ?sa"
  have sl: "slice0 (hits response) t = take (nat t) (hits response)"
    using assms(4) by (simp add: slice0_nonneg)
  have nonempty: "take (nat t) (hits response) \<noteq> []"
    using assms(4,5) by (cases "hits response") auto
  have page: "\<exists>page. outcome (cursorSearch client project p input) = Inr page \<and> nextCursor page = Some ?c"
    using assms(5,6) nonempty
    by (simp add: cursorSearch_page [where client = client and project = project, OF assms(1,2)]
          assms(3) sl)
  have dec: "searchAfter_of (input\<lparr>cursor := Some ?c\<rparr>) = Inr (Some (json_image (search_after_json ?sa)))"
    by (rule searchAfter_of_decoded [where c = ?c]) (simp_all add: decode_encode assms(7))
  have "queries (cursorSearch client' project' p (input\<lparr>cursor := Some ?c\<rparr>))
      = [search_params p (input\<lparr>cursor := Some ?c\<rparr>) (Some (json_image (search_after_json ?sa)))]"
    using queries_when_decoded [OF dec] .
  also have "\<dots> = [(search_params p input sa)\<lparr>search_after := Some (JArr (map json_image vs))\<rparr>]"
    using optional_values_image [of ?sa] by (simp add: search_params_def del: json_image.simps)
  finally show ?thesis using page by blast
qed

text \<open>
  Every page returned has no previous cursor: navigation is forward only.
\<close>

theorem prev_cursor_always_absent:
  assumes "outcome (cursorSearch client project p input) = Inr page"
  shows "prevCursor page = None"
proof (cases rule: outcome_cases [where input = input and client = client and p = p and project = project])
  case (decode_error e)
  then show ?thesis using assms by simp
next
  case (client_error sa e)
  then show ?thesis using assms by (simp add: cursorSearch_client_error [of _ sa _ _ e])
next
  case (page sa response)
  show ?thesis
    using assms unfolding cursorSearch_page [where client = client and project = project, OF page]
    by auto
qed

end
